theory Spec2Isabelle
  imports Complex_Main
begin

section \<open>Text primitives of the data loader\<close>

text \<open>
  Text is a list of characters over the code points 0..255. The functions below are
  the string methods of Python that \<^verbatim>\<open>data_loader.py\<close> calls, restricted to that
  range: \<^verbatim>\<open>str.lower\<close>, \<^verbatim>\<open>in\<close>, \<^verbatim>\<open>str.find\<close>, slicing, \<^verbatim>\<open>str.strip\<close> and
  \<^verbatim>\<open>str.replace("\n", " ")\<close>.
\<close>

definition lower_char :: "char \<Rightarrow> char" where
  "lower_char c =
     (let n = (of_char c :: nat) in
      if (65 \<le> n \<and> n \<le> 90) \<or> (192 \<le> n \<and> n \<le> 222 \<and> n \<noteq> 215)
      then char_of (n + 32) else c)"

definition lower :: "string \<Rightarrow> string" where
  "lower s = map lower_char s"

fun starts_with :: "string \<Rightarrow> string \<Rightarrow> bool" where
  "starts_with s [] = True"
| "starts_with [] (p # ps) = False"
| "starts_with (c # cs) (p # ps) = (c = p \<and> starts_with cs ps)"

text \<open>\<^verbatim>\<open>pat in s\<close>: some position of \<open>s\<close> starts an occurrence of \<open>pat\<close>.\<close>

fun contains :: "string \<Rightarrow> string \<Rightarrow> bool" where
  "contains [] pat = (pat = [])"
| "contains (c # cs) pat = (starts_with (c # cs) pat \<or> contains cs pat)"

text \<open>
  \<^verbatim>\<open>s.find(pat, start)\<close>: the least index \<open>\<ge> start\<close> where \<open>pat\<close> occurs, or \<open>-1\<close>.
  \<open>find_at\<close> scans the rest of the text, \<open>i\<close> being the index of its first character.
\<close>

fun find_at :: "string \<Rightarrow> string \<Rightarrow> nat \<Rightarrow> int" where
  "find_at [] pat i = (if pat = [] then int i else - 1)"
| "find_at (c # cs) pat i =
     (if starts_with (c # cs) pat then int i else find_at cs pat (Suc i))"

definition str_find :: "string \<Rightarrow> string \<Rightarrow> nat \<Rightarrow> int" where
  "str_find s pat start = (if start \<le> length s then find_at (drop start s) pat start else - 1)"

text \<open>\<^verbatim>\<open>s[start:end]\<close> for indices that are not negative.\<close>

definition slice :: "string \<Rightarrow> nat \<Rightarrow> nat \<Rightarrow> string" where
  "slice s start end = take (end - start) (drop start s)"

definition is_space :: "char \<Rightarrow> bool" where
  "is_space c =
     (let n = (of_char c :: nat) in
      (9 \<le> n \<and> n \<le> 13) \<or> (28 \<le> n \<and> n \<le> 32) \<or> n = 133 \<or> n = 160)"

definition strip :: "string \<Rightarrow> string" where
  "strip s = rev (dropWhile is_space (rev (dropWhile is_space s)))"

definition replace_newlines :: "string \<Rightarrow> string" where
  "replace_newlines s = map (\<lambda>c. if c = CHR 0x0A then CHR '' '' else c) s"

text \<open>The specification's reading of "occurs as a substring".\<close>

definition occurs_in :: "string \<Rightarrow> string \<Rightarrow> bool" where
  "occurs_in pat s = (\<exists>pre suf. s = pre @ pat @ suf)"

section \<open>Field extraction (data_loader.py)\<close>

text \<open>
  \<^verbatim>\<open>_fast_parse_catalog(raw)\<close> returns (name, bullets, desc). The argument is \<open>None\<close> when
  the CSV reader left the cell as \<^verbatim>\<open>None\<close>; \<^verbatim>\<open>not raw\<close> holds for it and for the empty
  text. The positions are Python integers, \<open>-1\<close> for a marker that is not found.
\<close>

definition fast_parse_catalog :: "string option \<Rightarrow> string \<times> string \<times> string" where
  "fast_parse_catalog raw_arg =
     (case raw_arg of
        None \<Rightarrow> ([], [], [])
      | Some raw \<Rightarrow>
          if raw = [] then ([], [], [])
          else
            (let low = lower raw;
                 ni = str_find low ''item_name'' 0;
                 bi = str_find low ''bullet_point'' 0;
                 di = str_find low ''product_description'' 0;
                 name =
                   (if 0 \<le> ni then
                      (let start = str_find raw '':'' (nat ni) + 1;
                           end = (if start < bi then bi
                                  else if start < di then di else int (length raw))
                       in take 120 (strip (slice raw (nat start) (nat end))))
                    else []);
                 bullets =
                   (if 0 \<le> bi then
                      (let start = str_find raw '':'' (nat bi) + 1;
                           end = (if start < di then di else int (length raw))
                       in take 200 (strip (slice raw (nat start) (nat end))))
                    else []);
                 desc =
                   (if 0 \<le> di then
                      (let start = str_find raw '':'' (nat di) + 1
                       in take 300 (strip (drop (nat start) raw)))
                    else []);
                 name' = (if name = [] then replace_newlines (strip (take 80 raw)) else name)
             in (name', bullets, desc)))"

text \<open>
  The specification's words for positions: \<open>pat\<close> occurs in \<open>s\<close> at index \<open>i\<close>, and the first
  index from \<open>k\<close> on where it does.
\<close>

definition occurs_at :: "string \<Rightarrow> string \<Rightarrow> nat \<Rightarrow> bool" where
  "occurs_at pat s i = (i \<le> length s \<and> take (length pat) (drop i s) = pat)"

definition first_from :: "string \<Rightarrow> string \<Rightarrow> nat \<Rightarrow> nat option" where
  "first_from pat s k =
     (if \<exists>i. k \<le> i \<and> occurs_at pat s i then Some (LEAST i. k \<le> i \<and> occurs_at pat s i)
      else None)"


text \<open>
  The name as claim C3 words it: the text after the colon that follows the marker, up to
  whichever located marker starts next after that colon, or to the end; stripped and cut to
  120 characters; without an \<^verbatim>\<open>item_name\<close> marker, the first 80 characters with newlines
  replaced by spaces.
\<close>

definition claimed_name :: "string \<Rightarrow> string" where
  "claimed_name raw =
     (let low = lower raw;
          ni = str_find low ''item_name'' 0;
          bi = str_find low ''bullet_point'' 0;
          di = str_find low ''product_description'' 0
      in if ni < 0 then replace_newlines (take 80 raw)
         else
           (let start = str_find raw '':'' (nat ni) + 1;
                later = filter (\<lambda>k. start < k) [bi, di];
                end = (if later = [] then int (length raw) else fold min (tl later) (hd later))
            in take 120 (strip (slice raw (nat start) (nat end)))))"

section \<open>Category classifier\<close>

definition CAT_RULES :: "(string \<times> string list) list" where
  "CAT_RULES =
    [(''Coffee & Tea'', [''coffee'', ''tea'', ''espresso'', ''latte'', ''brew'', ''chai'', ''matcha'']),
     (''Beverages'', [''water'', ''juice'', ''soda'', ''drink'', ''beverage'', ''cola'', ''lemonade'']),
     (''Snacks & Chips'', [''chip'', ''snack'', ''pretzel'', ''popcorn'', ''cracker'', ''cookie'', ''nuts'']),
     (''Candy & Sweets'', [''candy'', ''chocolate'', ''gum'', ''mint'', ''sweet'', ''gummy'', ''caramel'']),
     (''Spices & Seasoning'', [''spice'', ''seasoning'', ''pepper'', ''salt'', ''cinnamon'', ''cumin'', ''paprika'']),
     (''Health & Wellness'', [''vitamin'', ''supplement'', ''protein'', ''organic'', ''health'', ''probiotic'']),
     (''Dairy & Refrigerated'', [''milk'', ''cheese'', ''yogurt'', ''butter'', ''cream'', ''dairy'', ''egg'']),
     (''Canned & Packaged'', [''canned'', ''soup'', ''sauce'', ''paste'', ''jar'', ''broth'', ''stock'']),
     (''Baking & Cooking'', [''flour'', ''sugar'', ''baking'', ''yeast'', ''vanilla'', ''cocoa'', ''mix''])]"

text \<open>The inner loop of \<^verbatim>\<open>_classify\<close>: does some keyword of the rule occur in the name?\<close>

fun kw_hit :: "string list \<Rightarrow> string \<Rightarrow> bool" where
  "kw_hit [] name_lower = False"
| "kw_hit (kw # kws) name_lower = (if contains name_lower kw then True else kw_hit kws name_lower)"

text \<open>The outer loop of \<^verbatim>\<open>_classify\<close> over the rules that are left.\<close>

fun classify_rules :: "(string \<times> string list) list \<Rightarrow> string \<Rightarrow> string" where
  "classify_rules [] name_lower = ''Other''"
| "classify_rules ((cat, kws) # rules) name_lower =
     (if kw_hit kws name_lower then cat else classify_rules rules name_lower)"

text \<open>\<^verbatim>\<open>_classify(name_lower)\<close>.\<close>

definition classify :: "string \<Rightarrow> string" where
  "classify name_lower = classify_rules CAT_RULES name_lower"

section \<open>Numbers and errors\<close>

text \<open>
  Python's \<^verbatim>\<open>float\<close> is modelled by the real numbers. In the definitions of this
  section arithmetic is exact, and the range and the rounding of the binary format are
  not part of them; the range of the floats, and what Python does when a result leaves
  it, is added for the pricing search in the section on the range of the floats below,
  where \<open>py_pow\<close> and \<open>compute_reward\<close> are shown to be the instance of the ranged
  definitions at an unbounded range. What Python raises on real arguments is part of
  the definitions here: division by zero, and the power operator at a zero base with a
  negative exponent. A negative base with a fractional exponent gives a complex number
  in Python, which the comparison of the next line rejects with a \<^verbatim>\<open>TypeError\<close>; the
  model reports that error at the power. \<^verbatim>\<open>int\<close> is \<open>int\<close>.

  \<open>OverflowError\<close> is raised by \<^verbatim>\<open>**\<close> and by the true division of ints when the
  result is too large for a float. \<open>NotFinite\<close> is no exception of Python: it marks a
  run in which \<^verbatim>\<open>+\<close>, \<^verbatim>\<open>-\<close>, \<^verbatim>\<open>*\<close> or \<^verbatim>\<open>/\<close> produced an infinity or a nan.
\<close>

datatype error =
  ZeroDivisionError | TypeError | ValueError | IndexError | KeyError | OverflowError | NotFinite

definition py_div :: "real \<Rightarrow> real \<Rightarrow> error + real" where
  "py_div a b = (if b = 0 then Inl ZeroDivisionError else Inr (a / b))"

definition py_pow :: "real \<Rightarrow> real \<Rightarrow> error + real" where
  "py_pow b e =
     (if 0 < b then Inr (b powr e)
      else if b = 0 then
        (if e < 0 then Inl ZeroDivisionError else if e = 0 then Inr 1 else Inr 0)
      else if e \<in> \<int> then Inr (b powi \<lfloor>e\<rfloor>)
      else Inl TypeError)"

text \<open>
  \<^verbatim>\<open>round(x, ndigits)\<close> rounds to the nearest multiple of \<open>10 ^ - ndigits\<close>, a tie going
  to the even neighbour.
\<close>

definition round_half_even :: "real \<Rightarrow> int" where
  "round_half_even x =
     (let f = \<lfloor>x\<rfloor>; d = x - of_int f in
      if d < 1 / 2 then f else if 1 / 2 < d then f + 1 else if even f then f else f + 1)"

definition py_round :: "real \<Rightarrow> nat \<Rightarrow> real" where
  "py_round x ndigits = of_int (round_half_even (x * 10 ^ ndigits)) / 10 ^ ndigits"

section \<open>Data model (models.py)\<close>

text \<open>
  The fields keep their names, behind a prefix for the class (\<open>p_\<close> Product, \<open>ms_\<close>
  MarketState where the name is shared, \<open>pa_\<close> PricingAction, \<open>sr_\<close> SimulationResult).
  A text field of a product that the CSV reader left as \<^verbatim>\<open>None\<close> is \<open>None\<close>.
\<close>

record Product =
  p_sample_id :: int
  p_name :: string
  p_price :: real
  p_category :: string
  p_unit :: "string option"
  p_value :: "string option"
  p_image_link :: "string option"
  p_bullet_points :: string
  p_description :: string

record MarketState =
  ms_product_id :: int
  current_price :: real
  competitor_price :: real
  inventory_level :: int
  user_engagement :: real
  seasonal_factor :: real
  demand_elasticity :: real
  ms_timestamp :: string

record PricingAction =
  pa_product_id :: int
  pa_product_name :: string
  pa_old_price :: real
  pa_new_price :: real
  pa_reward :: real
  pa_profit_component :: real
  pa_competitive_component :: real
  pa_stability_component :: real
  pa_inventory_component :: real
  pa_step :: int
  pa_timestamp :: string

record SimulationResult =
  sr_product_id :: int
  sr_product_name :: string
  sr_actions :: "PricingAction list"
  sr_total_reward :: real
  sr_avg_reward :: real
  sr_final_price :: real
  sr_initial_price :: real
  sr_max_price :: real
  sr_min_price :: real
  sr_steps :: int

record AppSettings =
  alpha :: real
  beta :: real
  gamma :: real
  delta :: real
  default_steps :: int
  price_adjustment_range :: real
  max_catalog_rows :: int
  theme :: string

text \<open>\<^verbatim>\<open>AppSettings()\<close>: the defaults of the class.\<close>

definition default_settings :: AppSettings where
  "default_settings =
     \<lparr>alpha = 0.40, beta = 0.25, gamma = 0.20, delta = 0.15, default_steps = 30,
      price_adjustment_range = 0.15, max_catalog_rows = 500, theme = ''warehouse_dark''\<rparr>"

section \<open>The host: pseudo-random generator and clock\<close>

text \<open>
  \<^verbatim>\<open>random.Random\<close> and \<^verbatim>\<open>datetime.now\<close> belong to the Python library, not to this
  repository. They are parameters: a generator state \<open>'g\<close> with the two draws the code
  makes, and a clock state \<open>'c\<close> with its reading in ISO format. Each returns the value
  and the next state.
\<close>

record ('g, 'c) host =
  randint :: "'g \<Rightarrow> int \<Rightarrow> int \<Rightarrow> int \<times> 'g"
  uniform :: "'g \<Rightarrow> real \<Rightarrow> real \<Rightarrow> real \<times> 'g"
  now_isoformat :: "'c \<Rightarrow> string \<times> 'c"

text \<open>\<^verbatim>\<open>__post_init__\<close> of PricingAction and of MarketState: an empty timestamp is set from the clock.\<close>

definition pa_post_init :: "('g, 'c) host \<Rightarrow> PricingAction \<Rightarrow> 'c \<Rightarrow> PricingAction \<times> 'c" where
  "pa_post_init h a c =
     (if pa_timestamp a = [] then
        (case now_isoformat h c of (t, c') \<Rightarrow> (a\<lparr>pa_timestamp := t\<rparr>, c'))
      else (a, c))"

definition ms_post_init :: "('g, 'c) host \<Rightarrow> MarketState \<Rightarrow> 'c \<Rightarrow> MarketState \<times> 'c" where
  "ms_post_init h m c =
     (if ms_timestamp m = [] then
        (case now_isoformat h c of (t, c') \<Rightarrow> (m\<lparr>ms_timestamp := t\<rparr>, c'))
      else (m, c))"

section \<open>Pricing engine (pricing_engine.py)\<close>

definition estimate_cost :: "real \<Rightarrow> real" where
  "estimate_cost price = price * 0.60"

definition demand_function :: "real \<Rightarrow> real \<Rightarrow> real \<Rightarrow> real \<Rightarrow> real \<Rightarrow> error + real" where
  "demand_function price base_price elasticity seasonal engagement =
     (if base_price \<le> 0 \<or> price \<le> 0 then Inr 0
      else
        (case py_div price base_price of
           Inl e \<Rightarrow> Inl e
         | Inr price_ratio \<Rightarrow>
             (case py_pow price_ratio elasticity of
                Inl e \<Rightarrow> Inl e
              | Inr pw \<Rightarrow> Inr (max 0 (100 * pw * seasonal * engagement)))))"

text \<open>The inventory penalty of \<^verbatim>\<open>compute_reward\<close>; the divisors are the literals 20 and 400.\<close>

definition inventory_penalty :: "int \<Rightarrow> real" where
  "inventory_penalty inv_level =
     (if inv_level < 20 then (of_int (20 - inv_level) / 20) ^ 2
      else if inv_level > 400 then (of_int (inv_level - 400) / 400) ^ 2
      else 0)"

text \<open>
  \<^verbatim>\<open>compute_reward\<close> returns (total, profit component, competitive penalty, stability
  penalty, inventory penalty). The squares are \<^verbatim>\<open>** 2\<close>, an integer power. Here they
  are exact; \<open>compute_reward_fl\<close> below has the \<^verbatim>\<open>OverflowError\<close> that \<^verbatim>\<open>**\<close> raises
  when the square is too large for a float.
\<close>

definition compute_reward ::
  "AppSettings \<Rightarrow> real \<Rightarrow> real \<Rightarrow> MarketState \<Rightarrow> error + (real \<times> real \<times> real \<times> real \<times> real)" where
  "compute_reward s old_price new_price market =
     (let cost = estimate_cost (current_price market) in
      case demand_function new_price (current_price market) (demand_elasticity market)
             (seasonal_factor market) (user_engagement market) of
        Inl e \<Rightarrow> Inl e
      | Inr demand \<Rightarrow>
     (let profit = (new_price - cost) * demand in
      case py_div profit (max 1 (current_price market * 100)) of
        Inl e \<Rightarrow> Inl e
      | Inr r_profit \<Rightarrow>
     (let comp_diff = max 0 (new_price - competitor_price market) in
      case py_div comp_diff (max 1 (competitor_price market)) of
        Inl e \<Rightarrow> Inl e
      | Inr comp_ratio \<Rightarrow>
     (let p_competitive = comp_ratio ^ 2 in
      case py_div \<bar>new_price - old_price\<bar> (max 1 old_price) of
        Inl e \<Rightarrow> Inl e
      | Inr price_change \<Rightarrow>
     (let p_stability = price_change ^ 2;
          p_inventory = inventory_penalty (inventory_level market);
          total' = alpha s * r_profit - beta s * p_competitive
                   - gamma s * p_stability - delta s * p_inventory
      in Inr (total', r_profit, p_competitive, p_stability, p_inventory))))))"

text \<open>The ten candidates of \<^verbatim>\<open>suggest_price\<close>, in the order of the source.\<close>

definition candidates :: "AppSettings \<Rightarrow> MarketState \<Rightarrow> real list" where
  "candidates s market =
     (let base = current_price market; rng = price_adjustment_range s in
      [base,
       base * (1 - rng * 0.25),
       base * (1 - rng * 0.50),
       base * (1 - rng * 0.75),
       base * (1 + rng * 0.25),
       base * (1 + rng * 0.50),
       base * (1 + rng * 0.75),
       competitor_price market,
       competitor_price market * 0.98,
       competitor_price market * 1.02])"

text \<open>
  \<^verbatim>\<open>reward > best_reward\<close>, where \<open>best_reward\<close> starts at \<^verbatim>\<open>float("-inf")\<close>: \<open>None\<close> is
  minus infinity.
\<close>

fun exceeds :: "real \<Rightarrow> real option \<Rightarrow> bool" where
  "exceeds reward None = True"
| "exceeds reward (Some best) = (best < reward)"

text \<open>
  The loop of \<^verbatim>\<open>suggest_price\<close> over the candidates that are left; the state is
  (\<open>best_price\<close>, \<open>best_reward\<close>).
\<close>

fun search :: "AppSettings \<Rightarrow> MarketState \<Rightarrow> real list \<Rightarrow> real \<times> real option
    \<Rightarrow> error + (real \<times> real option)" where
  "search s market [] best = Inr best"
| "search s market (cand # rest) (best_price, best_reward) =
     (let cp = py_round (max 0.01 cand) 2 in
      case compute_reward s (current_price market) cp market of
        Inl e \<Rightarrow> Inl e
      | Inr (reward, _) \<Rightarrow>
          if exceeds reward best_reward then search s market rest (cp, Some reward)
          else search s market rest (best_price, best_reward))"

definition suggest_price :: "AppSettings \<Rightarrow> Product \<Rightarrow> MarketState \<Rightarrow> error + real" where
  "suggest_price s product market =
     (case search s market (candidates s market) (current_price market, None) of
        Inl e \<Rightarrow> Inl e
      | Inr (best_price, _) \<Rightarrow> Inr (py_round best_price 2))"

text \<open>
  Names for what the claims speak of. \<open>floored\<close> is the candidate as the loop scores it
  (\<^verbatim>\<open>cp = round(max(0.01, cp), 2)\<close>); \<open>score\<close> is the total reward \<^verbatim>\<open>suggest_price\<close>
  reads for it; \<open>competitive_penalty\<close> and \<open>stability_penalty\<close> are the third and fourth
  component of the tuple of \<^verbatim>\<open>compute_reward\<close>. \<open>projr\<close> takes the value out of \<open>Inr\<close>;
  \<^verbatim>\<open>compute_reward\<close> is proved below to return \<open>Inr\<close> always.
\<close>

definition floored :: "real \<Rightarrow> real" where
  "floored cand = py_round (max 0.01 cand) 2"

definition score :: "AppSettings \<Rightarrow> MarketState \<Rightarrow> real \<Rightarrow> real" where
  "score s market cp = fst (projr (compute_reward s (current_price market) cp market))"

definition competitive_penalty :: "AppSettings \<Rightarrow> real \<Rightarrow> real \<Rightarrow> MarketState \<Rightarrow> real" where
  "competitive_penalty s old_price new_price market =
     fst (snd (snd (projr (compute_reward s old_price new_price market))))"

definition stability_penalty :: "AppSettings \<Rightarrow> real \<Rightarrow> real \<Rightarrow> MarketState \<Rightarrow> real" where
  "stability_penalty s old_price new_price market =
     fst (snd (snd (snd (projr (compute_reward s old_price new_price market)))))"

text \<open>
  \<^verbatim>\<open>simulate_step\<close>: the engine's generator \<open>g\<close> and the clock \<open>c\<close> go in and come out.
\<close>

definition simulate_step ::
  "('g, 'c) host \<Rightarrow> AppSettings \<Rightarrow> Product \<Rightarrow> MarketState \<Rightarrow> real \<Rightarrow> 'g \<Rightarrow> 'c
    \<Rightarrow> error + (PricingAction \<times> MarketState \<times> 'g \<times> 'c)" where
  "simulate_step h s product market old_price g c =
     (case suggest_price s product market of
        Inl e \<Rightarrow> Inl e
      | Inr new_price \<Rightarrow>
     (case compute_reward s old_price new_price market of
        Inl e \<Rightarrow> Inl e
      | Inr (total', r_profit, p_comp, p_stab, p_inv) \<Rightarrow>
     (case pa_post_init h
             \<lparr>pa_product_id = p_sample_id product,
              pa_product_name = take 60 (p_name product),
              pa_old_price = py_round old_price 2,
              pa_new_price = py_round new_price 2,
              pa_reward = py_round total' 4,
              pa_profit_component = py_round r_profit 4,
              pa_competitive_component = py_round p_comp 4,
              pa_stability_component = py_round p_stab 4,
              pa_inventory_component = py_round p_inv 4,
              pa_step = 0,
              pa_timestamp = []\<rparr> c of (action, c1) \<Rightarrow>
     (case randint h g (- 30) 30 of (inv_change, g1) \<Rightarrow>
     (let new_inv = max 0 (inventory_level market + inv_change) in
      case uniform h g1 (- 0.05) 0.05 of (engagement_drift, g2) \<Rightarrow>
     (let new_engagement = max 0.05 (min 1.0 (user_engagement market + engagement_drift)) in
      case uniform h g2 (- 0.1) 0.1 of (seasonal_drift, g3) \<Rightarrow>
     (let new_seasonal = max 0.3 (min 2.5 (seasonal_factor market + seasonal_drift)) in
      case uniform h g3 (- 0.03) 0.03 of (comp_drift, g4) \<Rightarrow>
     (let new_comp = py_round (max 0.01 (competitor_price market * (1 + comp_drift))) 2 in
      case ms_post_init h
             \<lparr>ms_product_id = p_sample_id product,
              current_price = new_price,
              competitor_price = new_comp,
              inventory_level = new_inv,
              user_engagement = py_round new_engagement 2,
              seasonal_factor = py_round new_seasonal 2,
              demand_elasticity = demand_elasticity market,
              ms_timestamp = []\<rparr> c1 of (new_market, c2) \<Rightarrow>
        Inr (action, new_market, g4, c2)))))))))"

text \<open>
  The state of the loop of \<^verbatim>\<open>run_simulation\<close>: the actions so far, the current price
  (\<open>cur_price\<close>, the local \<^verbatim>\<open>current_price\<close>), the current market, the prices so far, then
  the generator and the clock.
\<close>

type_synonym ('g, 'c) loop_state =
  "PricingAction list \<times> real \<times> MarketState \<times> real list \<times> 'g \<times> 'c"

text \<open>
  \<^verbatim>\<open>for step in range(steps)\<close>: \<open>n\<close> iterations are left and \<open>step\<close> is the value of the
  loop variable in the next one.
\<close>

fun run_loop :: "('g, 'c) host \<Rightarrow> AppSettings \<Rightarrow> Product \<Rightarrow> nat \<Rightarrow> int
    \<Rightarrow> ('g, 'c) loop_state \<Rightarrow> error + ('g, 'c) loop_state" where
  "run_loop h s product 0 step st = Inr st"
| "run_loop h s product (Suc n) step (actions, cur_price, current_market, prices, g, c) =
     (case simulate_step h s product current_market cur_price g c of
        Inl e \<Rightarrow> Inl e
      | Inr (action, new_market, g', c') \<Rightarrow>
          (let action' = action\<lparr>pa_step := step + 1\<rparr> in
           run_loop h s product n (step + 1)
             (actions @ [action'], pa_new_price action', new_market,
              prices @ [pa_new_price action'], g', c')))"

text \<open>\<^verbatim>\<open>max(prices)\<close> and \<^verbatim>\<open>min(prices)\<close> of a list that is never empty here.\<close>

definition list_max :: "real list \<Rightarrow> real" where
  "list_max xs = fold max (tl xs) (hd xs)"

definition list_min :: "real list \<Rightarrow> real" where
  "list_min xs = fold min (tl xs) (hd xs)"

text \<open>
  \<^verbatim>\<open>run_simulation(product, market, steps)\<close>; \<open>steps = None\<close> is the omitted argument.
  The first line is \<^verbatim>\<open>steps = steps or self.settings.default_steps\<close>, and Python's
  \<^verbatim>\<open>or\<close> takes its right operand when the left one is \<^verbatim>\<open>None\<close> or \<open>0\<close>.
\<close>

definition run_simulation ::
  "('g, 'c) host \<Rightarrow> AppSettings \<Rightarrow> Product \<Rightarrow> MarketState \<Rightarrow> int option \<Rightarrow> 'g \<Rightarrow> 'c
    \<Rightarrow> error + (SimulationResult \<times> 'g \<times> 'c)" where
  "run_simulation h s product market steps_arg g c =
     (let steps = (case steps_arg of
                     None \<Rightarrow> default_steps s
                   | Some n \<Rightarrow> if n = 0 then default_steps s else n);
          initial_price = current_price market
      in
      case run_loop h s product (nat steps) 0
             ([], current_price market, market, [current_price market], g, c) of
        Inl e \<Rightarrow> Inl e
      | Inr (actions, cur_price, current_market, prices, g', c') \<Rightarrow>
     (let total_reward = sum_list (map pa_reward actions) in
      case (if actions \<noteq> [] then py_div total_reward (real (length actions)) else Inr 0) of
        Inl e \<Rightarrow> Inl e
      | Inr avg_reward \<Rightarrow>
          Inr (\<lparr>sr_product_id = p_sample_id product,
                sr_product_name = take 60 (p_name product),
                sr_actions = actions,
                sr_total_reward = py_round total_reward 4,
                sr_avg_reward = py_round avg_reward 4,
                sr_final_price = py_round cur_price 2,
                sr_initial_price = py_round initial_price 2,
                sr_max_price = py_round (list_max prices) 2,
                sr_min_price = py_round (list_min prices) 2,
                sr_steps = steps\<rparr>, g', c')))"

section \<open>The range of the floats\<close>

text \<open>
  The definitions of the pricing engine above compute with real numbers. Python's floats
  are finite, and a result whose magnitude is above the largest float leaves the range.
  How it leaves depends on the operation: \<^verbatim>\<open>**\<close> on floats and the true division of
  two ints raise \<^verbatim>\<open>OverflowError\<close>; \<^verbatim>\<open>+\<close>, \<^verbatim>\<open>-\<close>, \<^verbatim>\<open>*\<close> and \<^verbatim>\<open>/\<close> on floats
  raise nothing and give an infinity, from which later steps make infinities or nan.

  This section repeats \<^verbatim>\<open>compute_reward\<close> and \<^verbatim>\<open>suggest_price\<close> operation by
  operation, in the order in which Python evaluates them, with the range as a parameter
  \<open>fmx\<close>. \<open>None\<close> is the unbounded range; \<open>Some M\<close> lets every result have magnitude at
  most \<open>M\<close>; \<open>FLOAT_MAX\<close> is the largest binary64 number, \<open>(2 ^ 53 - 1) * 2 ^ 971\<close>.
  An operation that raises gives \<open>OverflowError\<close>. An operation that leaves the range
  without raising gives \<open>NotFinite\<close>: in Python the run goes on with an infinity or a
  nan, and the model does not follow it further, so nothing is stated of a run that ends
  in \<open>NotFinite\<close>. Inside the range the results are the exact ones: the rounding of the
  binary format and the underflow towards zero are not modelled.
\<close>

definition FLOAT_MAX :: real where
  "FLOAT_MAX = (2 ^ 53 - 1) * 2 ^ 971"

definition and_then :: "error + 'a \<Rightarrow> ('a \<Rightarrow> error + 'b) \<Rightarrow> error + 'b" where
  "and_then r f = (case r of Inl e \<Rightarrow> Inl e | Inr v \<Rightarrow> f v)"

definition fl_quiet :: "real option \<Rightarrow> real \<Rightarrow> error + real" where
  "fl_quiet fmx x =
     (case fmx of None \<Rightarrow> Inr x | Some M \<Rightarrow> if \<bar>x\<bar> \<le> M then Inr x else Inl NotFinite)"

definition fl_raising :: "real option \<Rightarrow> real \<Rightarrow> error + real" where
  "fl_raising fmx x =
     (case fmx of None \<Rightarrow> Inr x | Some M \<Rightarrow> if \<bar>x\<bar> \<le> M then Inr x else Inl OverflowError)"

definition f_add :: "real option \<Rightarrow> real \<Rightarrow> real \<Rightarrow> error + real" where
  "f_add fmx a b = fl_quiet fmx (a + b)"

definition f_sub :: "real option \<Rightarrow> real \<Rightarrow> real \<Rightarrow> error + real" where
  "f_sub fmx a b = fl_quiet fmx (a - b)"

definition f_mul :: "real option \<Rightarrow> real \<Rightarrow> real \<Rightarrow> error + real" where
  "f_mul fmx a b = fl_quiet fmx (a * b)"

definition f_div :: "real option \<Rightarrow> real \<Rightarrow> real \<Rightarrow> error + real" where
  "f_div fmx a b = (if b = 0 then Inl ZeroDivisionError else fl_quiet fmx (a / b))"

text \<open>
  \<^verbatim>\<open>b ** e\<close> on floats: \<^verbatim>\<open>ZeroDivisionError\<close> at a zero base with a negative exponent,
  a complex number (reported as \<^verbatim>\<open>TypeError\<close>, as in \<open>py_pow\<close>) at a negative base with
  a fractional exponent, \<^verbatim>\<open>OverflowError\<close> when the result leaves the range.
  \<^verbatim>\<open>a / b\<close> on ints raises \<^verbatim>\<open>OverflowError\<close> too when the quotient is too large for
  a float.
\<close>

definition f_pow :: "real option \<Rightarrow> real \<Rightarrow> real \<Rightarrow> error + real" where
  "f_pow fmx b e =
     (if 0 < b then fl_raising fmx (b powr e)
      else if b = 0 then
        (if e < 0 then Inl ZeroDivisionError else if e = 0 then Inr 1 else Inr 0)
      else if e \<in> \<int> then fl_raising fmx (b powi \<lfloor>e\<rfloor>)
      else Inl TypeError)"

definition int_truediv :: "real option \<Rightarrow> int \<Rightarrow> int \<Rightarrow> error + real" where
  "int_truediv fmx a b =
     (if b = 0 then Inl ZeroDivisionError else fl_raising fmx (of_int a / of_int b))"

text \<open>
  \<^verbatim>\<open>_estimate_cost\<close>, \<^verbatim>\<open>_demand_function\<close>, the inventory branch of
  \<^verbatim>\<open>compute_reward\<close> and \<^verbatim>\<open>compute_reward\<close> itself, one binding of \<open>and_then\<close> for
  each arithmetic operation of the source.
\<close>

definition estimate_cost_fl :: "real option \<Rightarrow> real \<Rightarrow> error + real" where
  "estimate_cost_fl fmx price = f_mul fmx price 0.60"

definition demand_function_fl ::
  "real option \<Rightarrow> real \<Rightarrow> real \<Rightarrow> real \<Rightarrow> real \<Rightarrow> real \<Rightarrow> error + real" where
  "demand_function_fl fmx price base_price elasticity seasonal engagement =
     (if base_price \<le> 0 \<or> price \<le> 0 then Inr 0
      else
        and_then (f_div fmx price base_price) (\<lambda>price_ratio.
        and_then (f_pow fmx price_ratio elasticity) (\<lambda>pw.
        and_then (f_mul fmx 100 pw) (\<lambda>d1.
        and_then (f_mul fmx d1 seasonal) (\<lambda>d2.
        and_then (f_mul fmx d2 engagement) (\<lambda>demand.
        Inr (max 0 demand)))))))"

definition inventory_penalty_fl :: "real option \<Rightarrow> int \<Rightarrow> error + real" where
  "inventory_penalty_fl fmx inv_level =
     (if inv_level < 20 then
        and_then (int_truediv fmx (20 - inv_level) 20) (\<lambda>q. f_pow fmx q 2)
      else if inv_level > 400 then
        and_then (int_truediv fmx (inv_level - 400) 400) (\<lambda>q. f_pow fmx q 2)
      else Inr 0)"

definition compute_reward_fl ::
  "real option \<Rightarrow> AppSettings \<Rightarrow> real \<Rightarrow> real \<Rightarrow> MarketState
    \<Rightarrow> error + (real \<times> real \<times> real \<times> real \<times> real)" where
  "compute_reward_fl fmx s old_price new_price market =
     and_then (estimate_cost_fl fmx (current_price market)) (\<lambda>cost.
     and_then (demand_function_fl fmx new_price (current_price market) (demand_elasticity market)
                 (seasonal_factor market) (user_engagement market)) (\<lambda>demand.
     and_then (f_sub fmx new_price cost) (\<lambda>margin.
     and_then (f_mul fmx margin demand) (\<lambda>profit.
     and_then (f_mul fmx (current_price market) 100) (\<lambda>scale.
     and_then (f_div fmx profit (max 1 scale)) (\<lambda>r_profit.
     and_then (f_sub fmx new_price (competitor_price market)) (\<lambda>diff.
     and_then (f_div fmx (max 0 diff) (max 1 (competitor_price market))) (\<lambda>comp_ratio.
     and_then (f_pow fmx comp_ratio 2) (\<lambda>p_competitive.
     and_then (f_sub fmx new_price old_price) (\<lambda>change.
     and_then (f_div fmx \<bar>change\<bar> (max 1 old_price)) (\<lambda>price_change.
     and_then (f_pow fmx price_change 2) (\<lambda>p_stability.
     and_then (inventory_penalty_fl fmx (inventory_level market)) (\<lambda>p_inventory.
     and_then (f_mul fmx (alpha s) r_profit) (\<lambda>t1.
     and_then (f_mul fmx (beta s) p_competitive) (\<lambda>t2.
     and_then (f_sub fmx t1 t2) (\<lambda>t12.
     and_then (f_mul fmx (gamma s) p_stability) (\<lambda>t3.
     and_then (f_sub fmx t12 t3) (\<lambda>t123.
     and_then (f_mul fmx (delta s) p_inventory) (\<lambda>t4.
     and_then (f_sub fmx t123 t4) (\<lambda>total'.
     Inr (total', r_profit, p_competitive, p_stability, p_inventory)))))))))))))))))))))"

text \<open>
  \<^verbatim>\<open>suggest_price\<close>: the candidate list is built first (\<open>adjusted\<close> is
  \<^verbatim>\<open>base * (1 - rng * part)\<close> or \<^verbatim>\<open>base * (1 + rng * part)\<close>, \<open>collect\<close> is the list
  display, element by element), then the loop scores the floored candidates in order.
\<close>

definition adjusted :: "real option \<Rightarrow> real \<Rightarrow> bool \<Rightarrow> real \<Rightarrow> real \<Rightarrow> error + real" where
  "adjusted fmx base up rng part =
     and_then (f_mul fmx rng part) (\<lambda>q.
     and_then (if up then f_add fmx 1 q else f_sub fmx 1 q) (\<lambda>k.
     f_mul fmx base k))"

fun collect :: "(error + 'a) list \<Rightarrow> error + 'a list" where
  "collect [] = Inr []"
| "collect (r # rs) = and_then r (\<lambda>v. and_then (collect rs) (\<lambda>vs. Inr (v # vs)))"

definition candidates_fl :: "real option \<Rightarrow> AppSettings \<Rightarrow> MarketState \<Rightarrow> error + real list" where
  "candidates_fl fmx s market =
     (let base = current_price market; rng = price_adjustment_range s in
      collect
        [Inr base,
         adjusted fmx base False rng 0.25,
         adjusted fmx base False rng 0.50,
         adjusted fmx base False rng 0.75,
         adjusted fmx base True rng 0.25,
         adjusted fmx base True rng 0.50,
         adjusted fmx base True rng 0.75,
         Inr (competitor_price market),
         f_mul fmx (competitor_price market) 0.98,
         f_mul fmx (competitor_price market) 1.02])"

fun search_fl :: "real option \<Rightarrow> AppSettings \<Rightarrow> MarketState \<Rightarrow> real list \<Rightarrow> real \<times> real option
    \<Rightarrow> error + (real \<times> real option)" where
  "search_fl fmx s market [] best = Inr best"
| "search_fl fmx s market (cand # rest) (best_price, best_reward) =
     (let cp = py_round (max 0.01 cand) 2 in
      case compute_reward_fl fmx s (current_price market) cp market of
        Inl e \<Rightarrow> Inl e
      | Inr (reward, _) \<Rightarrow>
          if exceeds reward best_reward then search_fl fmx s market rest (cp, Some reward)
          else search_fl fmx s market rest (best_price, best_reward))"

definition suggest_price_fl ::
  "real option \<Rightarrow> AppSettings \<Rightarrow> Product \<Rightarrow> MarketState \<Rightarrow> error + real" where
  "suggest_price_fl fmx s product market =
     and_then (candidates_fl fmx s market) (\<lambda>cands.
     (case search_fl fmx s market cands (current_price market, None) of
        Inl e \<Rightarrow> Inl e
      | Inr (best_price, _) \<Rightarrow> Inr (py_round best_price 2)))"

text \<open>
  Predicates on outcomes. \<open>range_only r\<close>: if \<open>r\<close> is an error, it is one of the two ways
  of leaving the range. \<open>agrees r r0\<close>: if \<open>r\<close> is a value, \<open>r0\<close> is the same value.
  \<open>bounded_by B r\<close>: \<open>r\<close> is a value of magnitude at most \<open>B\<close>.
\<close>

definition range_only :: "error + 'a \<Rightarrow> bool" where
  "range_only r = (case r of Inl e \<Rightarrow> e = OverflowError \<or> e = NotFinite | Inr v \<Rightarrow> True)"

definition agrees :: "error + 'a \<Rightarrow> error + 'a \<Rightarrow> bool" where
  "agrees r r0 = (case r of Inl e \<Rightarrow> True | Inr v \<Rightarrow> r0 = Inr v)"

definition bounded_by :: "real \<Rightarrow> error + real \<Rightarrow> bool" where
  "bounded_by B r = (case r of Inl e \<Rightarrow> False | Inr v \<Rightarrow> \<bar>v\<bar> \<le> B)"

text \<open>
  A range of settings and market states in which no operation of \<^verbatim>\<open>suggest_price\<close>
  comes near the largest float: prices between one cent and \<open>10 ^ 9\<close>, the other market
  values and the weights bounded as written.
\<close>

definition within_range :: "AppSettings \<Rightarrow> MarketState \<Rightarrow> bool" where
  "within_range s m \<longleftrightarrow>
     0.01 \<le> current_price m \<and> current_price m \<le> 10 ^ 9
     \<and> \<bar>competitor_price m\<bar> \<le> 10 ^ 9
     \<and> \<bar>inventory_level m\<bar> \<le> 10 ^ 9
     \<and> \<bar>user_engagement m\<bar> \<le> 10 ^ 3
     \<and> \<bar>seasonal_factor m\<bar> \<le> 10 ^ 3
     \<and> \<bar>demand_elasticity m\<bar> \<le> 3
     \<and> \<bar>alpha s\<bar> \<le> 10 ^ 3 \<and> \<bar>beta s\<bar> \<le> 10 ^ 3
     \<and> \<bar>gamma s\<bar> \<le> 10 ^ 3 \<and> \<bar>delta s\<bar> \<le> 10 ^ 3
     \<and> \<bar>price_adjustment_range s\<bar> \<le> 1"

section \<open>Ingestion and aggregation (data_loader.py)\<close>

text \<open>
  A row of \<^verbatim>\<open>csv.DictReader\<close> maps the column names of the header to text; a row shorter
  than the header holds \<^verbatim>\<open>None\<close> for the columns it lacks. \<open>r key = None\<close> is a key that
  the dictionary does not have, \<open>Some CNone\<close> the value \<^verbatim>\<open>None\<close>.
\<close>

datatype cell = CNone | CStr string

type_synonym row = "string \<Rightarrow> cell option"

text \<open>
  What the loader calls in the Python library, as parameters: \<^verbatim>\<open>random.randint\<close> on the
  state of the module's generator, and the parsers \<^verbatim>\<open>float(s)\<close> and \<^verbatim>\<open>int(s)\<close> of a text,
  \<open>None\<close> where Python raises \<^verbatim>\<open>ValueError\<close>.
\<close>

record 'g pylib =
  py_randint :: "'g \<Rightarrow> int \<Rightarrow> int \<Rightarrow> int \<times> 'g"
  py_float :: "string \<Rightarrow> real option"
  py_int :: "string \<Rightarrow> int option"

definition MAX_PRODUCTS :: nat where
  "MAX_PRODUCTS = 10000"

text \<open>The decimal digits of \<open>i\<close> in \<^verbatim>\<open>f"Product {i}"\<close>.\<close>

fun str_of_nat :: "nat \<Rightarrow> string" where
  "str_of_nat n =
     (if n < 10 then [char_of (48 + n)]
      else str_of_nat (n div 10) @ [char_of (48 + n mod 10)])"

text \<open>\<^verbatim>\<open>row.get(key, "")\<close>: a text, or \<^verbatim>\<open>None\<close>.\<close>

definition get_text :: "row \<Rightarrow> string \<Rightarrow> string option" where
  "get_text r key = (case r key of None \<Rightarrow> Some [] | Some CNone \<Rightarrow> None | Some (CStr s) \<Rightarrow> Some s)"

text \<open>
  The record of row \<open>i\<close>, lines 132 to 150 of \<^verbatim>\<open>load_and_cache\<close>. \<^verbatim>\<open>float\<close> is called inside
  \<^verbatim>\<open>try\<close> and a failure gives the price 0.0; \<^verbatim>\<open>int\<close> is not, so its \<^verbatim>\<open>TypeError\<close> (on
  \<^verbatim>\<open>None\<close>) and \<^verbatim>\<open>ValueError\<close> leave the function.
\<close>

definition make_product :: "'g pylib \<Rightarrow> nat \<Rightarrow> row \<Rightarrow> error + Product" where
  "make_product lib i r =
     (case fast_parse_catalog (get_text r ''catalog_content'') of (name, bullets, desc) \<Rightarrow>
     (let price = (case r ''price'' of
                     None \<Rightarrow> 0
                   | Some CNone \<Rightarrow> 0
                   | Some (CStr s) \<Rightarrow> (case py_float lib s of None \<Rightarrow> 0 | Some x \<Rightarrow> x))
      in
      case (case r ''sample_id'' of
              None \<Rightarrow> Inr (int i)
            | Some CNone \<Rightarrow> Inl TypeError
            | Some (CStr s) \<Rightarrow> (case py_int lib s of None \<Rightarrow> Inl ValueError | Some k \<Rightarrow> Inr k)) of
        Inl e \<Rightarrow> Inl e
      | Inr sid \<Rightarrow>
          Inr \<lparr>p_sample_id = sid,
               p_name = (if name = [] then ''Product '' @ str_of_nat i else name),
               p_price = price,
               p_category = classify (lower name),
               p_unit = get_text r ''unit'',
               p_value = get_text r ''value'',
               p_image_link = get_text r ''image_link'',
               p_bullet_points = bullets,
               p_description = desc\<rparr>))"

text \<open>\<^verbatim>\<open>xs[j] = v\<close>; a negative index counts from the end.\<close>

definition py_setitem :: "'a list \<Rightarrow> int \<Rightarrow> 'a \<Rightarrow> error + 'a list" where
  "py_setitem xs j v =
     (if 0 \<le> j then (if nat j < length xs then Inr (xs[nat j := v]) else Inl IndexError)
      else if - j \<le> int (length xs) then Inr (xs[nat (int (length xs) + j) := v])
      else Inl IndexError)"

text \<open>
  The loop over the rows, lines 130 to 158: \<open>i\<close> is the index of the next row, the state is
  (\<open>reservoir\<close>, \<open>total_rows\<close>, generator). The capacity \<open>cap\<close> is a parameter here;
  \<^verbatim>\<open>load_and_cache\<close> passes \<open>MAX_PRODUCTS\<close>.
\<close>

fun ingest :: "'g pylib \<Rightarrow> nat \<Rightarrow> nat \<Rightarrow> row list \<Rightarrow> Product list \<times> int \<times> 'g
    \<Rightarrow> error + (Product list \<times> int \<times> 'g)" where
  "ingest lib cap i [] st = Inr st"
| "ingest lib cap i (r # rows) (reservoir, total_rows, g) =
     (case make_product lib i r of
        Inl e \<Rightarrow> Inl e
      | Inr product \<Rightarrow>
          if length reservoir < cap
          then ingest lib cap (Suc i) rows (reservoir @ [product], total_rows + 1, g)
          else
            (case py_randint lib g 0 (int i) of (j, g') \<Rightarrow>
               if j < int cap then
                 (case py_setitem reservoir j product of
                    Inl e \<Rightarrow> Inl e
                  | Inr reservoir' \<Rightarrow> ingest lib cap (Suc i) rows (reservoir', total_rows + 1, g'))
               else ingest lib cap (Suc i) rows (reservoir, total_rows + 1, g')))"

definition sample_rows :: "'g pylib \<Rightarrow> nat \<Rightarrow> row list \<Rightarrow> 'g \<Rightarrow> error + (Product list \<times> int \<times> 'g)" where
  "sample_rows lib cap rows g = ingest lib cap 0 rows ([], 0, g)"

text \<open>
  A \<^verbatim>\<open>dict\<close> with text keys, in insertion order: \<^verbatim>\<open>d.get(k, dflt)\<close>, \<^verbatim>\<open>d[k]\<close> and
  \<^verbatim>\<open>d[k] = v\<close>, which keeps the place of a key that is present and appends a new one.
\<close>

type_synonym 'v dict = "(string \<times> 'v) list"

definition dict_get :: "'v dict \<Rightarrow> string \<Rightarrow> 'v \<Rightarrow> 'v" where
  "dict_get d k dflt = (case map_of d k of None \<Rightarrow> dflt | Some v \<Rightarrow> v)"

definition dict_getitem :: "'v dict \<Rightarrow> string \<Rightarrow> error + 'v" where
  "dict_getitem d k = (case map_of d k of None \<Rightarrow> Inl KeyError | Some v \<Rightarrow> Inr v)"

fun dict_set :: "'v dict \<Rightarrow> string \<Rightarrow> 'v \<Rightarrow> 'v dict" where
  "dict_set [] k v = [(k, v)]"
| "dict_set ((k', v') # d) k v = (if k' = k then (k, v) # d else (k', v') # dict_set d k v)"

text \<open>
  The local variables of the statistics pass, lines 165 to 182 (\<open>prices_acc\<close> is the list
  \<^verbatim>\<open>prices\<close>), and one iteration of it.
\<close>

record stats_acc =
  cat_counts :: "int dict"
  cat_sums :: "real dict"
  cat_cnts :: "int dict"
  cat_mins :: "real dict"
  cat_maxs :: "real dict"
  prices_acc :: "real list"

definition sweep_step :: "Product \<Rightarrow> stats_acc \<Rightarrow> stats_acc" where
  "sweep_step p a =
     (let a1 = a\<lparr>cat_counts := dict_set (cat_counts a) (p_category p)
                                  (dict_get (cat_counts a) (p_category p) 0 + 1)\<rparr>
      in if 0 < p_price p then
           (let c = p_category p in
            a1\<lparr>prices_acc := prices_acc a @ [p_price p],
               cat_sums := dict_set (cat_sums a) c (dict_get (cat_sums a) c 0 + p_price p),
               cat_cnts := dict_set (cat_cnts a) c (dict_get (cat_cnts a) c 0 + 1),
               cat_mins := (case map_of (cat_mins a) c of
                              None \<Rightarrow> dict_set (cat_mins a) c (p_price p)
                            | Some mn \<Rightarrow> if p_price p < mn then dict_set (cat_mins a) c (p_price p)
                                         else cat_mins a),
               cat_maxs := (case map_of (cat_maxs a) c of
                              None \<Rightarrow> dict_set (cat_maxs a) c (p_price p)
                            | Some mx \<Rightarrow> if mx < p_price p then dict_set (cat_maxs a) c (p_price p)
                                         else cat_maxs a)\<rparr>)
         else a1)"

fun sweep :: "Product list \<Rightarrow> stats_acc \<Rightarrow> stats_acc" where
  "sweep [] a = a"
| "sweep (p # ps) a = sweep ps (sweep_step p a)"

text \<open>\<^verbatim>\<open>{c: cat_sums[c] / cat_cnts[c] for c in cat_cnts}\<close>, over the items of \<open>cat_cnts\<close>.\<close>

fun avg_prices :: "real dict \<Rightarrow> int dict \<Rightarrow> error + real dict" where
  "avg_prices sums_d [] = Inr []"
| "avg_prices sums_d ((c, n) # cnts) =
     (case dict_getitem sums_d c of
        Inl e \<Rightarrow> Inl e
      | Inr sm \<Rightarrow>
          (case py_div sm (of_int n) of
             Inl e \<Rightarrow> Inl e
           | Inr avg \<Rightarrow>
               (case avg_prices sums_d cnts of
                  Inl e \<Rightarrow> Inl e
                | Inr d \<Rightarrow> Inr ((c, avg) # d))))"

record PrecomputedData =
  pd_products :: "Product list"
  pd_category_counts :: "int dict"
  pd_category_avg_prices :: "real dict"
  pd_category_min_prices :: "real dict"
  pd_category_max_prices :: "real dict"
  pd_total_products :: int
  pd_total_in_csv :: int
  pd_priced_products :: int
  pd_avg_price :: real
  pd_median_price :: real
  pd_min_price :: real
  pd_max_price :: real
  pd_std_price :: real
  pd_zero_price_count :: int

text \<open>
  Lines 191 to 197: (avg, median, min, max, std) of the positive prices, all 0.0 when there
  are none. The indices \<open>len // 2\<close>, \<open>0\<close> and \<open>-1\<close> are inside a list that is not empty.
\<close>

definition price_stats :: "real list \<Rightarrow> error + (real \<times> real \<times> real \<times> real \<times> real)" where
  "price_stats unsorted =
     (if unsorted \<noteq> [] then
        (let ps = sort unsorted in
         case py_div (sum_list ps) (real (length ps)) of
           Inl e \<Rightarrow> Inl e
         | Inr avg \<Rightarrow>
             (case py_div (sum_list (map (\<lambda>x. (x - avg) ^ 2) ps)) (real (length ps)) of
                Inl e \<Rightarrow> Inl e
              | Inr var \<Rightarrow>
                  (case py_pow var 0.5 of
                     Inl e \<Rightarrow> Inl e
                   | Inr std \<Rightarrow> Inr (avg, ps ! (length ps div 2), hd ps, last ps, std))))
      else Inr (0, 0, 0, 0, 0))"

text \<open>
  Lines 160 to 197. \<^verbatim>\<open>sorted(..., key=lambda x: x[1], reverse=True)\<close> is stable, as
  \<open>sort_key\<close> on the negated count is.
\<close>

definition aggregate :: "Product list \<Rightarrow> int \<Rightarrow> error + PrecomputedData" where
  "aggregate reservoir total_rows =
     (let a = sweep reservoir
                \<lparr>cat_counts = [], cat_sums = [], cat_cnts = [], cat_mins = [], cat_maxs = [],
                 prices_acc = []\<rparr>
      in
      case avg_prices (cat_sums a) (cat_cnts a) of
        Inl e \<Rightarrow> Inl e
      | Inr avgs \<Rightarrow>
          (case price_stats (prices_acc a) of
             Inl e \<Rightarrow> Inl e
           | Inr (avg, median, mn, mx, std) \<Rightarrow>
               Inr \<lparr>pd_products = reservoir,
                    pd_category_counts = sort_key (\<lambda>x. - snd x) (cat_counts a),
                    pd_category_avg_prices = avgs,
                    pd_category_min_prices = cat_mins a,
                    pd_category_max_prices = cat_maxs a,
                    pd_total_products = int (length reservoir),
                    pd_total_in_csv = total_rows,
                    pd_priced_products = int (length (prices_acc a)),
                    pd_avg_price = avg,
                    pd_median_price = median,
                    pd_min_price = mn,
                    pd_max_price = mx,
                    pd_std_price = std,
                    pd_zero_price_count = int (length reservoir) - int (length (prices_acc a))\<rparr>))"

text \<open>
  \<^verbatim>\<open>load_and_cache\<close>. \<open>cached\<close> is what the cache file gave: \<open>Some d\<close> when it exists and
  unpickles to a \<^verbatim>\<open>PrecomputedData\<close>, \<open>None\<close> otherwise. Writing the cache file changes
  nothing the function returns and is left out.
\<close>

definition load_and_cache ::
  "'g pylib \<Rightarrow> PrecomputedData option \<Rightarrow> row list \<Rightarrow> 'g \<Rightarrow> error + (PrecomputedData \<times> 'g)" where
  "load_and_cache lib cached rows g =
     (let compute =
            (case sample_rows lib MAX_PRODUCTS rows g of
               Inl e \<Rightarrow> Inl e
             | Inr (reservoir, total_rows, g') \<Rightarrow>
                 (case aggregate reservoir total_rows of
                    Inl e \<Rightarrow> Inl e
                  | Inr d \<Rightarrow> Inr (d, g')))
      in case cached of
           None \<Rightarrow> compute
         | Some d \<Rightarrow> if 0 < pd_total_products d then Inr (d, g) else compute)"

text \<open>
  Names for what the claims speak of: the prices above zero of a list of records, in
  order; the records of a category; and the empty accumulator the statistics pass starts
  from.
\<close>

definition positive_prices :: "Product list \<Rightarrow> real list" where
  "positive_prices ps = filter (\<lambda>x. 0 < x) (map p_price ps)"

definition in_category :: "string \<Rightarrow> Product list \<Rightarrow> Product list" where
  "in_category c ps = filter (\<lambda>p. p_category p = c) ps"

definition acc0 :: stats_acc where
  "acc0 = \<lparr>cat_counts = [], cat_sums = [], cat_cnts = [], cat_mins = [], cat_maxs = [], prices_acc = []\<rparr>"

section \<open>Traces without clock readings\<close>

text \<open>
  The trace of a run without its clock readings: the timestamp of every action erased
  (and, for the states inside the loop, that of the market), the clock state dropped.
\<close>

definition erase_action :: "PricingAction \<Rightarrow> PricingAction" where
  "erase_action a = a\<lparr>pa_timestamp := []\<rparr>"

definition erase_timestamps :: "SimulationResult \<Rightarrow> SimulationResult" where
  "erase_timestamps r = r\<lparr>sr_actions := map erase_action (sr_actions r)\<rparr>"

definition erase_market :: "MarketState \<Rightarrow> MarketState" where
  "erase_market m = m\<lparr>ms_timestamp := []\<rparr>"

fun erase_state :: "('g, 'c) loop_state \<Rightarrow> PricingAction list \<times> real \<times> MarketState \<times> real list \<times> 'g" where
  "erase_state (actions, cur_price, current_market, prices, g, c) =
     (map erase_action actions, cur_price, erase_market current_market, prices, g)"

fun erase_step :: "PricingAction \<times> MarketState \<times> 'g \<times> 'c \<Rightarrow> PricingAction \<times> MarketState \<times> 'g" where
  "erase_step (a, m, g, c) = (erase_action a, erase_market m, g)"

fun erase_run :: "SimulationResult \<times> 'g \<times> 'c \<Rightarrow> SimulationResult \<times> 'g" where
  "erase_run (r, g, c) = (erase_timestamps r, g)"

section \<open>Example inputs\<close>

definition example_product :: Product where
  "example_product =
     \<lparr>p_sample_id = 7, p_name = ''Green Tea'', p_price = 10, p_category = ''Coffee & Tea'',
      p_unit = Some [], p_value = Some [], p_image_link = Some [],
      p_bullet_points = [], p_description = []\<rparr>"

definition example_market :: MarketState where
  "example_market =
     \<lparr>ms_product_id = 7, current_price = 10, competitor_price = 20, inventory_level = 100,
      user_engagement = 1, seasonal_factor = 1, demand_elasticity = - 1,
      ms_timestamp = ''2026-01-01T00:00:00''\<rparr>"

text \<open>
  A market state with finite values and a positive price at which \<^verbatim>\<open>**\<close> leaves the
  range of the floats.
\<close>

definition overflow_market :: MarketState where
  "overflow_market =
     \<lparr>ms_product_id = 7, current_price = 10 ^ 200, competitor_price = 1, inventory_level = 100,
      user_engagement = 1, seasonal_factor = 1, demand_elasticity = - 1,
      ms_timestamp = ''2026-01-01T00:00:00''\<rparr>"

text \<open>
  A host for examples: a generator that always draws the lower bound, and a clock that
  stands still at the time its state names.
\<close>

definition frozen_host :: "(unit, string) host" where
  "frozen_host =
     \<lparr>randint = (\<lambda>g lo hi. (lo, g)), uniform = (\<lambda>g lo hi. (lo, g)),
      now_isoformat = (\<lambda>c. (c, c))\<rparr>"

text \<open>
  A library for examples: a generator that counts its draws, and parsers that read
  unsigned decimal digits. The three rows are those of the specification's scenario.
\<close>

definition digit_val :: "char \<Rightarrow> nat option" where
  "digit_val c = (let n = (of_char c :: nat) in if 48 \<le> n \<and> n \<le> 57 then Some (n - 48) else None)"

fun parse_digits :: "string \<Rightarrow> nat \<Rightarrow> nat option" where
  "parse_digits [] acc = Some acc"
| "parse_digits (c # cs) acc =
     (case digit_val c of None \<Rightarrow> None | Some d \<Rightarrow> parse_digits cs (10 * acc + d))"

definition parse_nat :: "string \<Rightarrow> nat option" where
  "parse_nat s = (if s = [] then None else parse_digits s 0)"

definition example_lib :: "nat pylib" where
  "example_lib =
     \<lparr>py_randint = (\<lambda>g lo hi. (lo + int g mod (hi - lo + 1), Suc g)),
      py_float = (\<lambda>s. map_option real (parse_nat s)),
      py_int = (\<lambda>s. map_option int (parse_nat s))\<rparr>"

definition example_rows :: "row list" where
  "example_rows =
     [map_of [(''catalog_content'', CStr ''item_name: Green Tea''), (''price'', CStr ''10'')],
      map_of [(''catalog_content'', CStr ''item_name: Mystery Box''), (''price'', CStr ''0'')],
      map_of [(''catalog_content'', CStr ''item_name: Milk''), (''price'', CStr ''25'')]]"

section \<open>Properties of the text primitives\<close>

lemma starts_with_iff: "starts_with s pat = (\<exists>suf. s = pat @ suf)"
  by (induction s pat rule: starts_with.induct) auto

lemma contains_iff: "contains s pat = occurs_in pat s"
proof (induction s)
  case Nil
  show ?case by (auto simp: occurs_in_def)
next
  case (Cons c cs)
  show ?case
  proof
    assume "contains (c # cs) pat"
    then consider "starts_with (c # cs) pat" | "contains cs pat" by auto
    then show "occurs_in pat (c # cs)"
    proof cases
      case 1
      then obtain suf where "c # cs = pat @ suf" by (auto simp: starts_with_iff)
      then have "c # cs = [] @ pat @ suf" by simp
      then show ?thesis unfolding occurs_in_def by blast
    next
      case 2
      then obtain pre suf where "cs = pre @ pat @ suf" using Cons by (auto simp: occurs_in_def)
      then have "c # cs = (c # pre) @ pat @ suf" by simp
      then show ?thesis unfolding occurs_in_def by blast
    qed
  next
    assume "occurs_in pat (c # cs)"
    then obtain pre suf where eq: "c # cs = pre @ pat @ suf" by (auto simp: occurs_in_def)
    show "contains (c # cs) pat"
    proof (cases pre)
      case Nil
      with eq have "starts_with (c # cs) pat" by (auto simp: starts_with_iff)
      then show ?thesis by simp
    next
      case (Cons d pre')
      with eq have "cs = pre' @ pat @ suf" by simp
      then have "occurs_in pat cs" unfolding occurs_in_def by blast
      then show ?thesis using Cons.IH by simp
    qed
  qed
qed

lemma kw_hit_iff: "kw_hit kws n = (\<exists>kw \<in> set kws. occurs_in kw n)"
  by (induction kws) (auto simp: contains_iff)

lemma classify_rules_find:
  "classify_rules rules n =
     (case find (\<lambda>rule. \<exists>kw \<in> set (snd rule). occurs_in kw n) rules of
        None \<Rightarrow> ''Other'' | Some rule \<Rightarrow> fst rule)"
  by (induction rules n rule: classify_rules.induct) (auto simp: kw_hit_iff)

lemma starts_with_take: "starts_with t pat = (take (length pat) t = pat)"
proof -
  have "(\<exists>suf. t = pat @ suf) = (take (length pat) t = pat)"
    by (metis append_eq_conv_conj append_take_drop_id)
  then show ?thesis by (simp add: starts_with_iff)
qed

lemma find_at_least:
  "find_at t pat i =
     (if \<exists>j \<le> length t. starts_with (drop j t) pat
      then int (i + (LEAST j. j \<le> length t \<and> starts_with (drop j t) pat))
      else - 1)"
proof (induction t arbitrary: i)
  case Nil
  show ?case by (cases pat) auto
next
  case (Cons c cs)
  show ?case
  proof (cases "starts_with (c # cs) pat")
    case True
    then have "(LEAST j. j \<le> length (c # cs) \<and> starts_with (drop j (c # cs)) pat) = 0"
      by (intro Least_eq_0) simp
    moreover have "\<exists>j \<le> length (c # cs). starts_with (drop j (c # cs)) pat"
      using True by (intro exI[of _ 0]) simp
    ultimately show ?thesis using True by simp
  next
    case False
    let ?P = "\<lambda>j. j \<le> length (c # cs) \<and> starts_with (drop j (c # cs)) pat"
    let ?Q = "\<lambda>j. j \<le> length cs \<and> starts_with (drop j cs) pat"
    have PQ: "\<And>j. ?P (Suc j) = ?Q j" by simp
    have n0: "\<not> ?P 0" using False by simp
    show ?thesis
    proof (cases "\<exists>j. ?Q j")
      case True
      then obtain j where j: "?Q j" by blast
      then have "?P (Suc j)" by simp
      from Least_Suc[of ?P, OF this n0] have "(LEAST j. ?P j) = Suc (LEAST j. ?Q j)"
        by (simp only: PQ)
      moreover have "\<exists>j. ?P j" using \<open>?P (Suc j)\<close> by blast
      ultimately show ?thesis using False True Cons.IH[of "Suc i"] by simp
    next
      case noQ: False
      have "\<not> (\<exists>j. ?P j)"
      proof
        assume "\<exists>j. ?P j"
        then obtain j where j: "?P j" by blast
        with n0 obtain j' where "j = Suc j'" by (cases j) auto
        with j have "?Q j'" by simp
        with noQ show False by blast
      qed
      then show ?thesis using False noQ Cons.IH[of "Suc i"] by simp
    qed
  qed
qed

lemma Least_shift:
  fixes Q :: "nat \<Rightarrow> bool"
  assumes "Q (k + j)"
  shows "(LEAST i. k \<le> i \<and> Q i) = k + (LEAST j. Q (k + j))"
proof (rule Least_equality)
  show "k \<le> k + (LEAST j. Q (k + j)) \<and> Q (k + (LEAST j. Q (k + j)))"
    using LeastI[of "\<lambda>j. Q (k + j)", OF assms] by simp
next
  fix y assume y: "k \<le> y \<and> Q y"
  then have ky: "k \<le> y" and "Q (k + (y - k))" by simp_all
  then have "(LEAST j. Q (k + j)) \<le> y - k" by (intro Least_le)
  with ky show "k + (LEAST j. Q (k + j)) \<le> y" by linarith
qed

lemma str_find_first:
  "str_find s pat k = (case first_from pat s k of None \<Rightarrow> - 1 | Some i \<Rightarrow> int i)"
proof (cases "k \<le> length s")
  case False
  then have "\<not> (\<exists>i. k \<le> i \<and> occurs_at pat s i)" by (auto simp: occurs_at_def)
  then show ?thesis using False by (simp add: str_find_def first_from_def)
next
  case True
  let ?Q = "\<lambda>i. occurs_at pat s i"
  have shift: "\<And>j. (j \<le> length s - k \<and> starts_with (drop (j + k) s) pat) = ?Q (k + j)"
    using True by (auto simp: occurs_at_def starts_with_take add.commute)
  have find: "str_find s pat k =
     (if \<exists>j. ?Q (k + j) then int (k + (LEAST j. ?Q (k + j))) else - 1)"
    using True by (simp add: str_find_def find_at_least shift)
  show ?thesis
  proof (cases "\<exists>j. ?Q (k + j)")
    case ex: True
    then obtain j where j: "?Q (k + j)" by blast
    then have "\<exists>i. k \<le> i \<and> ?Q i" by (intro exI[of _ "k + j"]) simp
    then show ?thesis using ex Least_shift[of ?Q k j, OF j] by (simp add: find first_from_def)
  next
    case nex: False
    have "\<not> (\<exists>i. k \<le> i \<and> ?Q i)"
    proof
      assume "\<exists>i. k \<le> i \<and> ?Q i"
      then obtain i where i: "k \<le> i" "?Q i" by blast
      then have "?Q (k + (i - k))" by simp
      with nex show False by blast
    qed
    then show ?thesis using nex by (simp add: find first_from_def)
  qed
qed

section \<open>Properties of rounding, reward and search\<close>

lemma round_half_even_of_int: "round_half_even (of_int k) = k"
  by (simp add: round_half_even_def)

lemma round_half_even_bounds:
  "of_int (round_half_even x) \<le> x + 1/2 \<and> x - 1/2 \<le> of_int (round_half_even x)"
  unfolding round_half_even_def Let_def
  by (auto; linarith)

lemma round_half_even_mono:
  assumes "x \<le> y" shows "round_half_even x \<le> round_half_even y"
proof (cases "\<lfloor>x\<rfloor> = \<lfloor>y\<rfloor>")
  case True
  then show ?thesis using assms unfolding round_half_even_def Let_def by auto
next
  case False
  have "\<lfloor>x\<rfloor> \<le> \<lfloor>y\<rfloor>" using assms by (rule floor_mono)
  with False have "\<lfloor>x\<rfloor> + 1 \<le> \<lfloor>y\<rfloor>" by simp
  moreover have "round_half_even x \<le> \<lfloor>x\<rfloor> + 1" unfolding round_half_even_def Let_def by auto
  moreover have "\<lfloor>y\<rfloor> \<le> round_half_even y" unfolding round_half_even_def Let_def by auto
  ultimately show ?thesis by linarith
qed

lemma py_round_of_int: "py_round (of_int k / 10 ^ n) n = of_int k / 10 ^ n"
  by (simp add: py_round_def round_half_even_of_int)

lemma py_round_idem: "py_round (py_round x n) n = py_round x n"
  unfolding py_round_def[of x n] by (rule py_round_of_int)

lemma py_round_mono: "x \<le> y \<Longrightarrow> py_round x n \<le> py_round y n"
  unfolding py_round_def
  by (intro divide_right_mono of_int_le_iff[THEN iffD2] round_half_even_mono mult_right_mono) simp_all

lemma py_round_cent: "py_round 0.01 2 = 0.01"
  using py_round_of_int[of 1 2] by simp

lemma floored_ge: "0.01 \<le> py_round (max 0.01 x) 2"
proof -
  have "py_round 0.01 2 \<le> py_round (max 0.01 x) 2" by (rule py_round_mono) simp
  then show ?thesis by (simp only: py_round_cent)
qed

lemma demand_function_total:
  "demand_function price base e se en =
     Inr (if base \<le> 0 \<or> price \<le> 0 then 0 else max 0 (100 * (price / base) powr e * se * en))"
  by (auto simp: demand_function_def py_div_def py_pow_def)

lemma compute_reward_total:
  "compute_reward s old_price new_price m =
     (case demand_function new_price (current_price m) (demand_elasticity m)
             (seasonal_factor m) (user_engagement m) of
        Inl e \<Rightarrow> Inl e
      | Inr demand \<Rightarrow>
          Inr (alpha s * ((new_price - estimate_cost (current_price m)) * demand / max 1 (current_price m * 100))
                 - beta s * (max 0 (new_price - competitor_price m) / max 1 (competitor_price m)) ^ 2
                 - gamma s * (\<bar>new_price - old_price\<bar> / max 1 old_price) ^ 2
                 - delta s * inventory_penalty (inventory_level m),
               (new_price - estimate_cost (current_price m)) * demand / max 1 (current_price m * 100),
               (max 0 (new_price - competitor_price m) / max 1 (competitor_price m)) ^ 2,
               (\<bar>new_price - old_price\<bar> / max 1 old_price) ^ 2,
               inventory_penalty (inventory_level m)))"
proof -
  have nz: "\<And>x::real. max 1 x \<noteq> 0" by (simp add: max_def)
  show ?thesis
    by (simp add: compute_reward_def py_div_def nz Let_def split: sum.splits)
qed

lemma compute_reward_returns: "\<exists>t r pc ps pi. compute_reward s old_price new_price m = Inr (t, r, pc, ps, pi)"
  by (simp add: compute_reward_total demand_function_total)


lemma fold_argmax:
  fixes fl :: "'a \<Rightarrow> 'b" and rw :: "'a \<Rightarrow> real"
  assumes "xs \<noteq> []"
  shows "\<exists>i < length xs.
           fold (\<lambda>c (bp, br). if exceeds (rw c) br then (fl c, Some (rw c)) else (bp, br)) xs (b0, None)
             = (fl (xs ! i), Some (rw (xs ! i)))
           \<and> (\<forall>j < length xs. rw (xs ! j) \<le> rw (xs ! i))
           \<and> (\<forall>j < i. rw (xs ! j) < rw (xs ! i))"
  using assms
proof (induction xs rule: rev_induct)
  case Nil
  then show ?case by simp
next
  case (snoc y ys)
  let ?step = "\<lambda>c (bp, br). if exceeds (rw c) br then (fl c, Some (rw c)) else (bp, br)"
  show ?case
  proof (cases "ys = []")
    case True
    then show ?thesis by simp
  next
    case False
    from snoc.IH[OF False] obtain i where i: "i < length ys"
      and st: "fold ?step ys (b0, None) = (fl (ys ! i), Some (rw (ys ! i)))"
      and mx: "\<forall>j < length ys. rw (ys ! j) \<le> rw (ys ! i)"
      and fs: "\<forall>j < i. rw (ys ! j) < rw (ys ! i)" by blast
    show ?thesis
    proof (cases "rw (ys ! i) < rw y")
      case True
      have "fold ?step (ys @ [y]) (b0, None) = (fl y, Some (rw y))"
        using st True by simp
      moreover have "\<forall>j < length (ys @ [y]). rw ((ys @ [y]) ! j) \<le> rw y"
        using mx True by (auto simp: nth_append less_Suc_eq intro: order.trans less_imp_le)
      moreover have "\<forall>j < length ys. rw ((ys @ [y]) ! j) < rw y"
        using mx True by (auto simp: nth_append intro: le_less_trans)
      ultimately show ?thesis
        by (intro exI[of _ "length ys"]) simp
    next
      case False
      have "fold ?step (ys @ [y]) (b0, None) = (fl (ys ! i), Some (rw (ys ! i)))"
        using st False by simp
      moreover have "\<forall>j < length (ys @ [y]). rw ((ys @ [y]) ! j) \<le> rw (ys ! i)"
        using mx False by (auto simp: nth_append less_Suc_eq)
      moreover have "\<forall>j < i. rw ((ys @ [y]) ! j) < rw (ys ! i)"
        using fs i by (auto simp: nth_append)
      ultimately show ?thesis
        using i by (intro exI[of _ i]) (simp add: nth_append)
    qed
  qed
qed

lemma search_Cons:
  "search s m (cand # rest) (bp, br) =
     (case compute_reward s (current_price m) (floored cand) m of
        Inl e \<Rightarrow> Inl e
      | Inr (reward, _) \<Rightarrow>
          if exceeds reward br then search s m rest (floored cand, Some reward)
          else search s m rest (bp, br))"
  by (simp only: search.simps floored_def Let_def)

lemma search_fold:
  "search s m cs st =
     Inr (fold (\<lambda>c (bp, br).
                 if exceeds (score s m (floored c)) br
                 then (floored c, Some (score s m (floored c)))
                 else (bp, br)) cs st)"
proof (induction cs arbitrary: st)
  case Nil
  show ?case by simp
next
  case (Cons c cs)
  obtain bp br where st: "st = (bp, br)" by (cases st)
  obtain t r pc ps pi where cr:
    "compute_reward s (current_price m) (floored c) m = Inr (t, r, pc, ps, pi)"
    using compute_reward_returns by blast
  have sc: "score s m (floored c) = t" by (simp add: score_def cr)
  show ?case
    unfolding st search_Cons by (simp add: cr sc Cons.IH)
qed

lemma length_candidates: "length (candidates s m) = 10"
  by (simp add: candidates_def Let_def)

lemma competitive_penalty_eq:
  "competitive_penalty s old_price new_price m =
     (max 0 (new_price - competitor_price m) / max 1 (competitor_price m)) ^ 2"
  by (simp add: competitive_penalty_def compute_reward_total demand_function_total)

lemma stability_penalty_eq:
  "stability_penalty s old_price new_price m = (\<bar>new_price - old_price\<bar> / max 1 old_price) ^ 2"
  by (simp add: stability_penalty_def compute_reward_total demand_function_total)

lemma suggest_price_argmax:
  "\<exists>i < 10.
      suggest_price s product m = Inr (floored (candidates s m ! i))
      \<and> (\<forall>j < 10. score s m (floored (candidates s m ! j)) \<le> score s m (floored (candidates s m ! i)))
      \<and> (\<forall>j < i. score s m (floored (candidates s m ! j)) < score s m (floored (candidates s m ! i)))"
proof -
  let ?rw = "\<lambda>c. score s m (floored c)"
  have ne: "candidates s m \<noteq> []" using length_candidates[of s m] by auto
  from fold_argmax[OF ne, of ?rw floored "current_price m"]
  obtain i where i: "i < length (candidates s m)"
    and st: "fold (\<lambda>c (bp, br). if exceeds (?rw c) br then (floored c, Some (?rw c)) else (bp, br))
               (candidates s m) (current_price m, None)
             = (floored (candidates s m ! i), Some (?rw (candidates s m ! i)))"
    and mx: "\<forall>j < length (candidates s m). ?rw (candidates s m ! j) \<le> ?rw (candidates s m ! i)"
    and fs: "\<forall>j < i. ?rw (candidates s m ! j) < ?rw (candidates s m ! i)" by blast
  have "suggest_price s product m = Inr (py_round (floored (candidates s m ! i)) 2)"
    using st by (simp add: suggest_price_def search_fold)
  then have "suggest_price s product m = Inr (floored (candidates s m ! i))"
    by (simp only: floored_def py_round_idem)
  with i mx fs show ?thesis
    unfolding length_candidates by blast
qed

text \<open>The example market: the floored candidates, and the score in closed form.\<close>

lemma example_floored: "map floored (candidates default_settings example_market)
   = [10, 9.62, 9.25, 8.88, 10.38, 10.75, 11.12, 20, 19.6, 20.4]"
  by (simp add: candidates_def default_settings_def example_market_def floored_def py_round_def
        round_half_even_def Let_def)

lemma example_score:
  "0 < c \<Longrightarrow> score default_settings example_market c
     = 2 / 5 * ((c - 6) / c) - 1 / 4 * (max 0 (c - 20) / 20) ^ 2 - 1 / 5 * (\<bar>c - 10\<bar> / 10) ^ 2"
  by (simp add: score_def compute_reward_total demand_function_total default_settings_def
        example_market_def estimate_cost_def inventory_penalty_def powr_minus divide_simps)


lemma example_best:
  "\<forall>c \<in> set [10, 9.62, 9.25, 8.88, 10.38, 10.75, 20, 19.6, 20.4].
     score default_settings example_market c < score default_settings example_market 11.12"
  by (simp add: example_score power2_eq_square)

section \<open>Properties of the range of the floats\<close>

text \<open>
  At an unbounded range the ranged definitions are the exact ones
  (\<open>compute_reward_fl_exact\<close>, \<open>suggest_price_fl_exact\<close>). At every range the only errors
  are the two ways of leaving the range (\<open>range_only_suggest_price\<close>), and a returned
  value is the value of the exact definitions (\<open>agrees_suggest_price\<close>). Within
  \<open>within_range\<close> every result stays below \<open>10 ^ 61\<close>, so nothing leaves the range
  (\<open>suggest_price_fl_in_range\<close>).
\<close>

lemma and_then_Inr: "and_then (Inr v) f = f v"
  by (simp add: and_then_def)

lemma and_then_Inl: "and_then (Inl e) f = Inl e"
  by (simp add: and_then_def)

lemma fl_exact: "fl_quiet None x = Inr x" "fl_raising None x = Inr x"
  by (simp_all add: fl_quiet_def fl_raising_def)

lemma ops_exact:
  "f_add None a b = Inr (a + b)" "f_sub None a b = Inr (a - b)" "f_mul None a b = Inr (a * b)"
  "f_div None a b = py_div a b" "f_pow None b e = py_pow b e"
  by (simp_all add: f_add_def f_sub_def f_mul_def f_div_def f_pow_def py_div_def py_pow_def fl_exact)

lemma py_pow_two: "py_pow x 2 = Inr (x ^ 2)"
proof -
  have "(2 :: real) \<in> \<int>" by simp
  moreover have "\<lfloor>2 :: real\<rfloor> = 2" by simp
  ultimately show ?thesis by (auto simp: py_pow_def)
qed

lemma demand_function_fl_exact:
  "demand_function_fl None price base e se en = demand_function price base e se en"
  by (simp add: demand_function_fl_def demand_function_def ops_exact and_then_def split: sum.splits)

lemma inventory_penalty_fl_exact: "inventory_penalty_fl None k = Inr (inventory_penalty k)"
  by (simp add: inventory_penalty_fl_def inventory_penalty_def int_truediv_def fl_exact
        and_then_Inr ops_exact py_pow_two)

lemma compute_reward_fl_exact:
  "compute_reward_fl None s old_price new_price m = compute_reward s old_price new_price m"
proof -
  have nz: "\<And>x::real. max 1 x \<noteq> 0" by (simp add: max_def)
  show ?thesis
    by (simp add: compute_reward_fl_def compute_reward_total demand_function_fl_exact
          demand_function_total estimate_cost_fl_def estimate_cost_def ops_exact py_div_def nz
          py_pow_two inventory_penalty_fl_exact and_then_Inr)
qed

lemma candidates_fl_exact: "candidates_fl None s m = Inr (candidates s m)"
  by (simp add: candidates_fl_def candidates_def adjusted_def ops_exact and_then_Inr Let_def)

lemma search_fl_exact: "search_fl None s m cs st = search s m cs st"
proof (induction cs arbitrary: st)
  case Nil
  show ?case by simp
next
  case (Cons c cs)
  obtain bp br where st: "st = (bp, br)" by (cases st)
  show ?case
    unfolding st search_fl.simps search.simps compute_reward_fl_exact Cons.IH ..
qed

lemma suggest_price_fl_exact: "suggest_price_fl None s product m = suggest_price s product m"
  by (simp add: suggest_price_fl_def suggest_price_def candidates_fl_exact and_then_Inr search_fl_exact)

lemma range_only_Inr: "range_only (Inr v)"
  by (simp add: range_only_def)

lemma range_only_fl: "range_only (fl_quiet fmx x)" "range_only (fl_raising fmx x)"
  by (simp_all add: range_only_def fl_quiet_def fl_raising_def split: option.splits)

lemma range_only_ops:
  "range_only (f_add fmx a b)" "range_only (f_sub fmx a b)" "range_only (f_mul fmx a b)"
  by (simp_all add: f_add_def f_sub_def f_mul_def range_only_fl)

lemma range_only_div: "b \<noteq> 0 \<Longrightarrow> range_only (f_div fmx a b)"
  by (simp add: f_div_def range_only_fl)

lemma range_only_div_max: "range_only (f_div fmx a (max 1 b))"
  by (rule range_only_div) (simp add: max_def)

lemma range_only_pow_pos: "0 < b \<Longrightarrow> range_only (f_pow fmx b e)"
  by (simp add: f_pow_def range_only_fl)

lemma range_only_pow_two: "range_only (f_pow fmx b 2)"
proof -
  have "(2 :: real) \<in> \<int>" by simp
  then show ?thesis by (auto simp: f_pow_def range_only_fl range_only_Inr)
qed

lemma range_only_truediv: "b \<noteq> 0 \<Longrightarrow> range_only (int_truediv fmx a b)"
  by (simp add: int_truediv_def range_only_fl)

lemma range_only_bind:
  assumes "range_only r" "\<And>v. r = Inr v \<Longrightarrow> range_only (f v)"
  shows "range_only (and_then r f)"
  using assms by (cases r) (simp_all add: and_then_def range_only_def)

lemma f_div_value: "f_div fmx a b = Inr v \<Longrightarrow> v = a / b"
  by (auto simp: f_div_def fl_quiet_def split: if_splits option.splits)

lemma range_only_demand: "range_only (demand_function_fl fmx price base e se en)"
proof (cases "base \<le> 0 \<or> price \<le> 0")
  case True
  then show ?thesis by (simp add: demand_function_fl_def range_only_Inr)
next
  case False
  then have pos: "0 < base" "0 < price" by auto
  have "range_only (and_then (f_div fmx price base) (\<lambda>price_ratio.
        and_then (f_pow fmx price_ratio e) (\<lambda>pw.
        and_then (f_mul fmx 100 pw) (\<lambda>d1.
        and_then (f_mul fmx d1 se) (\<lambda>d2.
        and_then (f_mul fmx d2 en) (\<lambda>demand.
        Inr (max 0 demand)))))))"
  proof (rule range_only_bind)
    show "range_only (f_div fmx price base)" using pos by (intro range_only_div) simp
  next
    fix ratio assume "f_div fmx price base = Inr ratio"
    then have "ratio = price / base" by (rule f_div_value)
    then have "0 < ratio" using pos by simp
    then show "range_only (and_then (f_pow fmx ratio e) (\<lambda>pw.
        and_then (f_mul fmx 100 pw) (\<lambda>d1.
        and_then (f_mul fmx d1 se) (\<lambda>d2.
        and_then (f_mul fmx d2 en) (\<lambda>demand.
        Inr (max 0 demand))))))"
      by (intro range_only_bind range_only_pow_pos range_only_ops range_only_Inr)
  qed
  then show ?thesis using False by (simp add: demand_function_fl_def)
qed

lemma range_only_inventory: "range_only (inventory_penalty_fl fmx k)"
  unfolding inventory_penalty_fl_def
  by (auto intro!: range_only_bind range_only_truediv range_only_pow_two range_only_Inr)

lemma range_only_compute_reward: "range_only (compute_reward_fl fmx s old_price new_price m)"
  unfolding compute_reward_fl_def estimate_cost_fl_def
  by (intro range_only_bind range_only_ops range_only_div_max range_only_pow_two
        range_only_demand range_only_inventory range_only_Inr)

lemma range_only_adjusted: "range_only (adjusted fmx base up rng part)"
  unfolding adjusted_def
  by (cases up) (auto intro!: range_only_bind range_only_ops)

lemma range_only_collect:
  "\<forall>r \<in> set rs. range_only r \<Longrightarrow> range_only (collect rs)"
  by (induction rs) (auto intro!: range_only_bind range_only_Inr)

lemma range_only_candidates: "range_only (candidates_fl fmx s m)"
  unfolding candidates_fl_def Let_def
  by (rule range_only_collect) (simp add: range_only_adjusted range_only_ops range_only_Inr)

lemma range_only_search: "range_only (search_fl fmx s m cs st)"
proof (induction cs arbitrary: st)
  case Nil
  show ?case by (simp add: range_only_Inr)
next
  case (Cons c cs)
  obtain bp br where st: "st = (bp, br)" by (cases st)
  show ?case
  proof (cases "compute_reward_fl fmx s (current_price m) (py_round (max 0.01 c) 2) m")
    case (Inl e)
    with range_only_compute_reward[of fmx s "current_price m" "py_round (max 0.01 c) 2" m]
    show ?thesis unfolding st search_fl.simps Let_def by (simp add: range_only_def)
  next
    case (Inr v)
    obtain reward rest where v: "v = (reward, rest)" by (cases v)
    show ?thesis
      unfolding st search_fl.simps Let_def Inr v using Cons.IH by simp
  qed
qed

lemma range_only_suggest_price: "range_only (suggest_price_fl fmx s product m)"
proof -
  have "range_only (case search_fl fmx s m cs (current_price m, None) of
        Inl e \<Rightarrow> Inl e | Inr (best_price, _) \<Rightarrow> Inr (py_round best_price 2))" for cs
    using range_only_search[of fmx s m cs "(current_price m, None)"]
    by (auto simp: range_only_def split: sum.splits)
  then show ?thesis
    unfolding suggest_price_fl_def
    by (intro range_only_bind range_only_candidates)
qed

lemma agrees_refl: "agrees r r"
  by (simp add: agrees_def split: sum.splits)

lemma agrees_fl: "agrees (fl_quiet fmx x) (fl_quiet None x)" "agrees (fl_raising fmx x) (fl_raising None x)"
  by (simp_all add: agrees_def fl_quiet_def fl_raising_def split: option.splits)

lemma agrees_ops:
  "agrees (f_add fmx a b) (f_add None a b)" "agrees (f_sub fmx a b) (f_sub None a b)"
  "agrees (f_mul fmx a b) (f_mul None a b)" "agrees (f_div fmx a b) (f_div None a b)"
  "agrees (f_pow fmx a b) (f_pow None a b)" "agrees (int_truediv fmx i j) (int_truediv None i j)"
  by (simp_all add: f_add_def f_sub_def f_mul_def f_div_def f_pow_def int_truediv_def
        agrees_fl agrees_refl)

lemma agrees_bind:
  assumes "agrees r r0" "\<And>v. agrees (f v) (f0 v)"
  shows "agrees (and_then r f) (and_then r0 f0)"
  using assms by (cases r) (simp_all add: and_then_def agrees_def)

lemma agrees_demand:
  "agrees (demand_function_fl fmx price base e se en) (demand_function_fl None price base e se en)"
  unfolding demand_function_fl_def
  by (cases "base \<le> 0 \<or> price \<le> 0")
     (simp_all only: if_True if_False agrees_refl, intro agrees_bind agrees_ops agrees_refl)

lemma agrees_inventory: "agrees (inventory_penalty_fl fmx k) (inventory_penalty_fl None k)"
  unfolding inventory_penalty_fl_def
  by (auto intro!: agrees_bind agrees_ops agrees_refl)

lemma agrees_compute_reward:
  "agrees (compute_reward_fl fmx s old_price new_price m) (compute_reward s old_price new_price m)"
  unfolding compute_reward_fl_exact[symmetric]
  unfolding compute_reward_fl_def estimate_cost_fl_def
  by (intro agrees_bind agrees_ops agrees_demand agrees_inventory agrees_refl)

lemma agrees_adjusted: "agrees (adjusted fmx base up rng part) (adjusted None base up rng part)"
  unfolding adjusted_def
  by (cases up) (auto intro!: agrees_bind agrees_ops)

lemma agrees_collect:
  "list_all2 agrees rs rs0 \<Longrightarrow> agrees (collect rs) (collect rs0)"
  by (induction rs rs0 rule: list_all2_induct) (auto intro!: agrees_bind agrees_refl)

lemma agrees_candidates: "agrees (candidates_fl fmx s m) (Inr (candidates s m))"
  unfolding candidates_fl_exact[symmetric]
  unfolding candidates_fl_def Let_def
  by (rule agrees_collect) (simp add: agrees_adjusted agrees_ops agrees_refl)

lemma agrees_search: "agrees (search_fl fmx s m cs st) (search s m cs st)"
proof (induction cs arbitrary: st)
  case Nil
  show ?case by (simp add: agrees_refl)
next
  case (Cons c cs)
  obtain bp br where st: "st = (bp, br)" by (cases st)
  show ?case
  proof (cases "compute_reward_fl fmx s (current_price m) (py_round (max 0.01 c) 2) m")
    case (Inl e)
    then show ?thesis unfolding st search_fl.simps Let_def by (simp add: agrees_def)
  next
    case (Inr v)
    with agrees_compute_reward[of fmx s "current_price m" "py_round (max 0.01 c) 2" m]
    have ex: "compute_reward s (current_price m) (py_round (max 0.01 c) 2) m = Inr v"
      by (simp add: agrees_def)
    obtain reward rest where v: "v = (reward, rest)" by (cases v)
    show ?thesis
      unfolding st search_fl.simps search.simps Let_def Inr ex v using Cons.IH by simp
  qed
qed

lemma agrees_suggest_price:
  "agrees (suggest_price_fl fmx s product m) (suggest_price s product m)"
proof (cases "candidates_fl fmx s m")
  case (Inl e)
  then show ?thesis by (simp add: suggest_price_fl_def and_then_Inl agrees_def)
next
  case (Inr cs)
  with agrees_candidates[of fmx s m] have cs: "cs = candidates s m" by (simp add: agrees_def)
  show ?thesis
    using agrees_search[of fmx s m "candidates s m" "(current_price m, None)"]
    by (auto simp: suggest_price_fl_def suggest_price_def Inr cs and_then_Inr agrees_def
          split: sum.splits)
qed

lemma py_round_big: "py_round (10 ^ 200) 2 = 10 ^ 200"
proof -
  have "py_round (of_int (10 ^ 202) / 10 ^ 2) 2 = of_int (10 ^ 202) / 10 ^ 2"
    by (rule py_round_of_int)
  moreover have "of_int (10 ^ 202) / 10 ^ 2 = (10 ^ 200 :: real)" by simp
  ultimately show ?thesis by simp
qed

lemma float_max_less: "FLOAT_MAX < 10 ^ 309"
  by (simp add: FLOAT_MAX_def)

lemma float_max_big: "10 ^ 300 \<le> FLOAT_MAX"
  by (simp add: FLOAT_MAX_def)

lemma search_fl_first_error:
  "compute_reward_fl fmx s (current_price m) (floored c) m = Inl e
   \<Longrightarrow> search_fl fmx s m (c # cs) (bp, br) = Inl e"
  by (simp only: search_fl.simps floored_def Let_def) simp

lemma candidates_head: "candidates s m = current_price m # tl (candidates s m)"
  by (simp add: candidates_def Let_def)

lemma overflow_candidates:
  "candidates_fl (Some FLOAT_MAX) default_settings overflow_market
     = Inr (candidates default_settings overflow_market)"
  by (simp add: candidates_fl_def candidates_def adjusted_def f_mul_def f_add_def f_sub_def
        fl_quiet_def FLOAT_MAX_def and_then_Inr default_settings_def overflow_market_def Let_def)

lemma overflow_floored:
  "floored (current_price overflow_market) = current_price overflow_market"
proof -
  have "floored (current_price overflow_market) = py_round (of_int (10 ^ 202) / 10 ^ 2) 2"
    by (simp add: floored_def overflow_market_def)
  also have "\<dots> = of_int (10 ^ 202) / 10 ^ 2" by (rule py_round_of_int)
  also have "\<dots> = current_price overflow_market" by (simp add: overflow_market_def)
  finally show ?thesis .
qed

lemma overflow_first_score:
  "compute_reward_fl (Some FLOAT_MAX) default_settings (current_price overflow_market)
     (current_price overflow_market) overflow_market = Inl OverflowError"
  by (simp add: compute_reward_fl_def estimate_cost_fl_def demand_function_fl_def
        f_mul_def f_sub_def f_div_def f_pow_def fl_quiet_def fl_raising_def FLOAT_MAX_def
        and_then_Inr and_then_Inl default_settings_def overflow_market_def)

lemma overflow_suggest_price:
  "suggest_price_fl (Some FLOAT_MAX) default_settings example_product overflow_market
     = Inl OverflowError"
proof -
  have "compute_reward_fl (Some FLOAT_MAX) default_settings (current_price overflow_market)
     (floored (current_price overflow_market)) overflow_market = Inl OverflowError"
    by (simp only: overflow_floored overflow_first_score)
  then have "search_fl (Some FLOAT_MAX) default_settings overflow_market
          (current_price overflow_market # tl (candidates default_settings overflow_market))
          (current_price overflow_market, None)
        = Inl OverflowError"
    by (rule search_fl_first_error)
  then have "search_fl (Some FLOAT_MAX) default_settings overflow_market
          (candidates default_settings overflow_market) (current_price overflow_market, None)
        = Inl OverflowError"
    by (simp only: candidates_head[symmetric])
  then show ?thesis
    by (simp only: suggest_price_fl_def overflow_candidates and_then_Inr sum.case)
qed

lemma overflow_market_finite:
  "0 < current_price overflow_market \<and> current_price overflow_market \<le> FLOAT_MAX"
proof -
  have "(10 :: real) ^ 200 \<le> 10 ^ 300" by simp
  then have "(10 :: real) ^ 200 \<le> FLOAT_MAX" using float_max_big by (rule order_trans)
  then show ?thesis by (simp add: overflow_market_def)
qed

lemma bounded_byE:
  assumes "bounded_by B r"
  obtains v where "r = Inr v" "\<bar>v\<bar> \<le> B"
  using assms by (cases r) (simp_all add: bounded_by_def)

lemma bounded_quiet:
  assumes "\<bar>x\<bar> \<le> B" "B \<le> 10 ^ 300"
  shows "bounded_by B (fl_quiet (Some FLOAT_MAX) x)"
proof -
  have "\<bar>x\<bar> \<le> FLOAT_MAX" using assms float_max_big by linarith
  then show ?thesis using assms(1) by (simp add: bounded_by_def fl_quiet_def)
qed

lemma bounded_raising:
  assumes "\<bar>x\<bar> \<le> B" "B \<le> 10 ^ 300"
  shows "bounded_by B (fl_raising (Some FLOAT_MAX) x)"
proof -
  have "\<bar>x\<bar> \<le> FLOAT_MAX" using assms float_max_big by linarith
  then show ?thesis using assms(1) by (simp add: bounded_by_def fl_raising_def)
qed

lemma abs_mult_le:
  fixes a b :: real
  assumes "\<bar>a\<bar> \<le> A" "\<bar>b\<bar> \<le> B"
  shows "\<bar>a * b\<bar> \<le> A * B"
proof -
  have "\<bar>a\<bar> * \<bar>b\<bar> \<le> A * B" using assms by (intro mult_mono) auto
  then show ?thesis by (simp add: abs_mult)
qed

lemma bounded_mul:
  assumes "\<bar>a\<bar> \<le> A" "\<bar>b\<bar> \<le> B'" "A * B' \<le> B" "B \<le> 10 ^ 300"
  shows "bounded_by B (f_mul (Some FLOAT_MAX) a b)"
  unfolding f_mul_def using abs_mult_le[OF assms(1,2)] assms(3,4)
  by (intro bounded_quiet) auto

lemma bounded_add:
  assumes "\<bar>a\<bar> \<le> A" "\<bar>b\<bar> \<le> B'" "A + B' \<le> B" "B \<le> 10 ^ 300"
  shows "bounded_by B (f_add (Some FLOAT_MAX) a b)"
  unfolding f_add_def using assms by (intro bounded_quiet) auto

lemma bounded_sub:
  assumes "\<bar>a\<bar> \<le> A" "\<bar>b\<bar> \<le> B'" "A + B' \<le> B" "B \<le> 10 ^ 300"
  shows "bounded_by B (f_sub (Some FLOAT_MAX) a b)"
  unfolding f_sub_def using assms by (intro bounded_quiet) auto

lemma abs_div_max_le:
  fixes a b :: real
  assumes "\<bar>a\<bar> \<le> B"
  shows "\<bar>a / max 1 b\<bar> \<le> B"
proof -
  have "\<bar>a / max 1 b\<bar> = \<bar>a\<bar> / max 1 b" by (simp add: max_def)
  also have "\<dots> \<le> \<bar>a\<bar> / 1" by (intro divide_left_mono) auto
  finally show ?thesis using assms by simp
qed

lemma bounded_div_max:
  assumes "\<bar>a\<bar> \<le> B" "B \<le> 10 ^ 300"
  shows "bounded_by B (f_div (Some FLOAT_MAX) a (max 1 b))"
proof -
  have "max 1 b \<noteq> 0" by (simp add: max_def)
  then show ?thesis
    unfolding f_div_def using abs_div_max_le[OF assms(1)] assms(2)
    by (simp add: bounded_quiet)
qed

lemma abs_square_le:
  fixes a :: real
  assumes "\<bar>a\<bar> \<le> A"
  shows "\<bar>a ^ 2\<bar> \<le> A ^ 2"
proof -
  have "\<bar>a\<bar> ^ 2 \<le> A ^ 2" using assms by (intro power_mono) auto
  then show ?thesis by simp
qed

lemma f_pow_two: "f_pow fmx a 2 = (if a = 0 then Inr 0 else fl_raising fmx (a ^ 2))"
proof -
  have two: "(2 :: real) \<in> \<int>" by simp
  have "a powr 2 = a ^ 2" if "0 < a" using that by simp
  moreover have "a powi \<lfloor>2 :: real\<rfloor> = a ^ 2" by simp
  ultimately show ?thesis using two by (simp add: f_pow_def)
qed

lemma bounded_square:
  assumes "\<bar>a\<bar> \<le> A" "A ^ 2 \<le> B" "B \<le> 10 ^ 300"
  shows "bounded_by B (f_pow (Some FLOAT_MAX) a 2)"
proof (cases "a = 0")
  case True
  have "0 \<le> A" using assms(1) by linarith
  then have "0 \<le> B" using assms(2) zero_le_power[of A 2] by linarith
  then show ?thesis using True by (simp add: f_pow_two bounded_by_def)
next
  case False
  have "\<bar>a ^ 2\<bar> \<le> B" using abs_square_le[OF assms(1)] assms(2) by linarith
  then show ?thesis using False assms(3) by (simp add: f_pow_two bounded_raising)
qed

lemma powr_bounded:
  fixes x e :: real
  assumes lo: "1 / 10 ^ 12 \<le> x" and hi: "x \<le> 10 ^ 12" and e: "\<bar>e\<bar> \<le> 3"
  shows "x powr e \<le> 10 ^ 36"
proof -
  have pos: "0 < x" using lo by (rule less_le_trans[rotated]) simp
  show ?thesis
  proof (cases "0 \<le> e")
    case True
    have "x powr e \<le> (10 ^ 12) powr e" using True pos hi by (intro powr_mono2) auto
    also have "\<dots> \<le> (10 ^ 12) powr 3" using e by (intro powr_mono) auto
    also have "\<dots> = (10 ^ 36 :: real)" by simp
    finally show ?thesis .
  next
    case False
    then have neg: "e \<le> 0" by simp
    have "x powr e \<le> (1 / 10 ^ 12) powr e" using neg lo by (intro powr_mono2') auto
    also have "\<dots> \<le> (1 / 10 ^ 12) powr (- 3)" using e by (intro powr_mono') auto
    also have "\<dots> = inverse ((1 / 10 ^ 12) powr 3)" by (rule powr_minus)
    also have "\<dots> = (10 ^ 36 :: real)" by (simp add: power_divide)
    finally show ?thesis .
  qed
qed

lemma bounded_pow:
  assumes "1 / 10 ^ 12 \<le> x" "x \<le> 10 ^ 12" "\<bar>e\<bar> \<le> 3"
  shows "bounded_by (10 ^ 36) (f_pow (Some FLOAT_MAX) x e)"
proof -
  have pos: "0 < x" using assms(1) by (rule less_le_trans[rotated]) simp
  have "\<bar>x powr e\<bar> \<le> 10 ^ 36" using powr_bounded[OF assms] by simp
  then have "bounded_by (10 ^ 36) (fl_raising (Some FLOAT_MAX) (x powr e))"
    by (rule bounded_raising) simp
  then show ?thesis using pos by (simp add: f_pow_def)
qed

lemma bounded_truediv:
  assumes "\<bar>a\<bar> \<le> 10 ^ 10" "1 \<le> b"
  shows "bounded_by (10 ^ 10) (int_truediv (Some FLOAT_MAX) a b)"
proof -
  have "\<bar>(of_int a :: real) / of_int b\<bar> = \<bar>of_int a\<bar> / of_int b" using assms(2) by simp
  also have "\<dots> \<le> \<bar>of_int a\<bar> / 1" using assms(2) by (intro divide_left_mono) auto
  also have "\<dots> = of_int \<bar>a\<bar>" by simp
  also have "\<dots> \<le> of_int (10 ^ 10)" using assms(1) by (simp only: of_int_le_iff)
  finally have "\<bar>(of_int a :: real) / of_int b\<bar> \<le> 10 ^ 10" by simp
  then have "bounded_by (10 ^ 10) (fl_raising (Some FLOAT_MAX) (of_int a / of_int b))"
    by (rule bounded_raising) simp
  then show ?thesis using assms(2) by (simp add: int_truediv_def)
qed

lemma bounded_inventory:
  assumes "\<bar>k\<bar> \<le> 10 ^ 9"
  shows "bounded_by (10 ^ 20) (inventory_penalty_fl (Some FLOAT_MAX) k)"
proof -
  have sq: "bounded_by (10 ^ 20) (and_then (int_truediv (Some FLOAT_MAX) a b)
              (\<lambda>q. f_pow (Some FLOAT_MAX) q 2))"
    if "\<bar>a\<bar> \<le> 10 ^ 10" "1 \<le> b" for a b
  proof -
    from bounded_truediv[OF that] obtain q
      where q: "int_truediv (Some FLOAT_MAX) a b = Inr q" "\<bar>q\<bar> \<le> 10 ^ 10"
      by (rule bounded_byE)
    have "bounded_by (10 ^ 20) (f_pow (Some FLOAT_MAX) q 2)"
      by (rule bounded_square[OF q(2)]) simp_all
    then show ?thesis by (simp only: q(1) and_then_Inr)
  qed
  have a1: "\<bar>20 - k\<bar> \<le> 10 ^ 10" using assms by simp
  have a2: "\<bar>k - 400\<bar> \<le> 10 ^ 10" using assms by simp
  show ?thesis
    unfolding inventory_penalty_fl_def
    using sq[OF a1, of 20] sq[OF a2, of 400] by (simp add: bounded_by_def)
qed

lemma bounded_demand:
  assumes base: "0.01 \<le> base" "base \<le> 10 ^ 9"
    and cp: "0.01 \<le> cp" "cp \<le> 10 ^ 10"
    and e: "\<bar>e\<bar> \<le> 3" and se: "\<bar>se\<bar> \<le> 10 ^ 3" and en: "\<bar>en\<bar> \<le> 10 ^ 3"
  shows "bounded_by (10 ^ 44) (demand_function_fl (Some FLOAT_MAX) cp base e se en)"
proof -
  let ?L = "Some FLOAT_MAX"
  have guard: "\<not> (base \<le> 0 \<or> cp \<le> 0)" using base cp by simp
  have lo: "1 / 10 ^ 12 \<le> cp / base"
  proof -
    have "(1 / 100) / 10 ^ 9 \<le> cp / base" using base cp by (intro frac_le) auto
    moreover have "(1 :: real) / 10 ^ 12 \<le> (1 / 100) / 10 ^ 9" by simp
    ultimately show ?thesis by (rule order_trans[rotated])
  qed
  have hi: "cp / base \<le> 10 ^ 12"
  proof -
    have "cp / base \<le> 10 ^ 10 / (1 / 100)" using base cp by (intro frac_le) auto
    moreover have "(10 :: real) ^ 10 / (1 / 100) \<le> 10 ^ 12" by simp
    ultimately show ?thesis by (rule order_trans)
  qed
  have "base \<noteq> 0" using base by simp
  moreover have "\<bar>cp / base\<bar> \<le> FLOAT_MAX"
  proof -
    have "0 \<le> cp / base" using lo by (rule order_trans[rotated]) simp
    moreover have "(10 ^ 12 :: real) \<le> 10 ^ 300" by simp
    ultimately show ?thesis using hi float_max_big by linarith
  qed
  ultimately have ratio: "f_div ?L cp base = Inr (cp / base)"
    by (simp add: f_div_def fl_quiet_def)
  from bounded_pow[OF lo hi e] obtain pw
    where pw: "f_pow ?L (cp / base) e = Inr pw" "\<bar>pw\<bar> \<le> 10 ^ 36"
    by (rule bounded_byE)
  have "bounded_by (10 ^ 38) (f_mul ?L 100 pw)"
    by (rule bounded_mul[where A = 100 and B' = "10 ^ 36"]) (use pw in simp_all)
  then obtain d1 where d1: "f_mul ?L 100 pw = Inr d1" "\<bar>d1\<bar> \<le> 10 ^ 38"
    by (rule bounded_byE)
  have "bounded_by (10 ^ 41) (f_mul ?L d1 se)"
    by (rule bounded_mul[where A = "10 ^ 38" and B' = "10 ^ 3"]) (use d1 se in simp_all)
  then obtain d2 where d2: "f_mul ?L d1 se = Inr d2" "\<bar>d2\<bar> \<le> 10 ^ 41"
    by (rule bounded_byE)
  have "bounded_by (10 ^ 44) (f_mul ?L d2 en)"
    by (rule bounded_mul[where A = "10 ^ 41" and B' = "10 ^ 3"]) (use d2 en in simp_all)
  then obtain d3 where d3: "f_mul ?L d2 en = Inr d3" "\<bar>d3\<bar> \<le> 10 ^ 44"
    by (rule bounded_byE)
  have "demand_function_fl ?L cp base e se en = Inr (max 0 d3)"
    by (simp only: demand_function_fl_def guard if_False ratio pw(1) d1(1) d2(1) d3(1) and_then_Inr)
  moreover have "\<bar>max 0 d3\<bar> \<le> 10 ^ 44" using d3(2) by (cases "0 \<le> d3") (simp_all add: max_def)
  ultimately show ?thesis by (simp add: bounded_by_def)
qed

lemma compute_reward_fl_returns:
  assumes wr: "within_range s m" and cp: "0.01 \<le> cp" "cp \<le> 3 * 10 ^ 9"
  shows "\<exists>v. compute_reward_fl (Some FLOAT_MAX) s (current_price m) cp m = Inr v"
proof -
  let ?L = "Some FLOAT_MAX"
  from wr have base: "0.01 \<le> current_price m" "current_price m \<le> 10 ^ 9"
    and comp: "\<bar>competitor_price m\<bar> \<le> 10 ^ 9"
    and inv: "\<bar>inventory_level m\<bar> \<le> 10 ^ 9"
    and en: "\<bar>user_engagement m\<bar> \<le> 10 ^ 3"
    and se: "\<bar>seasonal_factor m\<bar> \<le> 10 ^ 3"
    and el: "\<bar>demand_elasticity m\<bar> \<le> 3"
    and al: "\<bar>alpha s\<bar> \<le> 10 ^ 3" and be: "\<bar>beta s\<bar> \<le> 10 ^ 3"
    and ga: "\<bar>gamma s\<bar> \<le> 10 ^ 3" and de: "\<bar>delta s\<bar> \<le> 10 ^ 3"
    by (simp_all add: within_range_def)
  have baseb: "\<bar>current_price m\<bar> \<le> 10 ^ 9" using base by simp
  have cpb: "\<bar>cp\<bar> \<le> 10 ^ 10" using cp by simp
  have cp10: "cp \<le> 10 ^ 10" using cp by simp
  have "bounded_by (10 ^ 9) (f_mul ?L (current_price m) 0.60)"
    by (rule bounded_mul[where A = "10 ^ 9" and B' = 1]) (use baseb in simp_all)
  then obtain cost where cost: "f_mul ?L (current_price m) 0.60 = Inr cost" "\<bar>cost\<bar> \<le> 10 ^ 9"
    by (rule bounded_byE)
  from bounded_demand[OF base cp(1) cp10 el se en] obtain demand
    where demand: "demand_function_fl ?L cp (current_price m) (demand_elasticity m)
                     (seasonal_factor m) (user_engagement m) = Inr demand"
      "\<bar>demand\<bar> \<le> 10 ^ 44"
    by (rule bounded_byE)
  have "bounded_by (10 ^ 11) (f_sub ?L cp cost)"
    by (rule bounded_sub[where A = "10 ^ 10" and B' = "10 ^ 9"]) (use cpb cost in simp_all)
  then obtain margin where margin: "f_sub ?L cp cost = Inr margin" "\<bar>margin\<bar> \<le> 10 ^ 11"
    by (rule bounded_byE)
  have "bounded_by (10 ^ 55) (f_mul ?L margin demand)"
    by (rule bounded_mul[where A = "10 ^ 11" and B' = "10 ^ 44"]) (use margin demand in simp_all)
  then obtain profit where profit: "f_mul ?L margin demand = Inr profit" "\<bar>profit\<bar> \<le> 10 ^ 55"
    by (rule bounded_byE)
  have "bounded_by (10 ^ 11) (f_mul ?L (current_price m) 100)"
    by (rule bounded_mul[where A = "10 ^ 9" and B' = 100]) (use baseb in simp_all)
  then obtain scale where scale: "f_mul ?L (current_price m) 100 = Inr scale" "\<bar>scale\<bar> \<le> 10 ^ 11"
    by (rule bounded_byE)
  have "bounded_by (10 ^ 55) (f_div ?L profit (max 1 scale))"
    by (rule bounded_div_max) (use profit in simp_all)
  then obtain r_profit
    where r_profit: "f_div ?L profit (max 1 scale) = Inr r_profit" "\<bar>r_profit\<bar> \<le> 10 ^ 55"
    by (rule bounded_byE)
  have "bounded_by (10 ^ 11) (f_sub ?L cp (competitor_price m))"
    by (rule bounded_sub[where A = "10 ^ 10" and B' = "10 ^ 9"]) (use cpb comp in simp_all)
  then obtain diff where diff: "f_sub ?L cp (competitor_price m) = Inr diff" "\<bar>diff\<bar> \<le> 10 ^ 11"
    by (rule bounded_byE)
  have "\<bar>max 0 diff\<bar> \<le> 10 ^ 11" using diff(2) by (cases "0 \<le> diff") (simp_all add: max_def)
  then have "bounded_by (10 ^ 11) (f_div ?L (max 0 diff) (max 1 (competitor_price m)))"
    by (rule bounded_div_max) simp
  then obtain comp_ratio
    where comp_ratio: "f_div ?L (max 0 diff) (max 1 (competitor_price m)) = Inr comp_ratio"
      "\<bar>comp_ratio\<bar> \<le> 10 ^ 11"
    by (rule bounded_byE)
  have "bounded_by (10 ^ 22) (f_pow ?L comp_ratio 2)"
    by (rule bounded_square[OF comp_ratio(2)]) simp_all
  then obtain p_competitive
    where p_competitive: "f_pow ?L comp_ratio 2 = Inr p_competitive" "\<bar>p_competitive\<bar> \<le> 10 ^ 22"
    by (rule bounded_byE)
  have "bounded_by (10 ^ 11) (f_sub ?L cp (current_price m))"
    by (rule bounded_sub[where A = "10 ^ 10" and B' = "10 ^ 9"]) (use cpb baseb in simp_all)
  then obtain change where change: "f_sub ?L cp (current_price m) = Inr change" "\<bar>change\<bar> \<le> 10 ^ 11"
    by (rule bounded_byE)
  have "bounded_by (10 ^ 11) (f_div ?L \<bar>change\<bar> (max 1 (current_price m)))"
    by (rule bounded_div_max) (use change in simp_all)
  then obtain price_change
    where price_change: "f_div ?L \<bar>change\<bar> (max 1 (current_price m)) = Inr price_change"
      "\<bar>price_change\<bar> \<le> 10 ^ 11"
    by (rule bounded_byE)
  have "bounded_by (10 ^ 22) (f_pow ?L price_change 2)"
    by (rule bounded_square[OF price_change(2)]) simp_all
  then obtain p_stability
    where p_stability: "f_pow ?L price_change 2 = Inr p_stability" "\<bar>p_stability\<bar> \<le> 10 ^ 22"
    by (rule bounded_byE)
  from bounded_inventory[OF inv] obtain p_inventory
    where p_inventory: "inventory_penalty_fl ?L (inventory_level m) = Inr p_inventory"
      "\<bar>p_inventory\<bar> \<le> 10 ^ 20"
    by (rule bounded_byE)
  have "bounded_by (10 ^ 58) (f_mul ?L (alpha s) r_profit)"
    by (rule bounded_mul[where A = "10 ^ 3" and B' = "10 ^ 55"]) (use al r_profit in simp_all)
  then obtain t1 where t1: "f_mul ?L (alpha s) r_profit = Inr t1" "\<bar>t1\<bar> \<le> 10 ^ 58"
    by (rule bounded_byE)
  have "bounded_by (10 ^ 25) (f_mul ?L (beta s) p_competitive)"
    by (rule bounded_mul[where A = "10 ^ 3" and B' = "10 ^ 22"]) (use be p_competitive in simp_all)
  then obtain t2 where t2: "f_mul ?L (beta s) p_competitive = Inr t2" "\<bar>t2\<bar> \<le> 10 ^ 25"
    by (rule bounded_byE)
  have "bounded_by (10 ^ 59) (f_sub ?L t1 t2)"
    by (rule bounded_sub[where A = "10 ^ 58" and B' = "10 ^ 25"]) (use t1 t2 in simp_all)
  then obtain t12 where t12: "f_sub ?L t1 t2 = Inr t12" "\<bar>t12\<bar> \<le> 10 ^ 59"
    by (rule bounded_byE)
  have "bounded_by (10 ^ 25) (f_mul ?L (gamma s) p_stability)"
    by (rule bounded_mul[where A = "10 ^ 3" and B' = "10 ^ 22"]) (use ga p_stability in simp_all)
  then obtain t3 where t3: "f_mul ?L (gamma s) p_stability = Inr t3" "\<bar>t3\<bar> \<le> 10 ^ 25"
    by (rule bounded_byE)
  have "bounded_by (10 ^ 60) (f_sub ?L t12 t3)"
    by (rule bounded_sub[where A = "10 ^ 59" and B' = "10 ^ 25"]) (use t12 t3 in simp_all)
  then obtain t123 where t123: "f_sub ?L t12 t3 = Inr t123" "\<bar>t123\<bar> \<le> 10 ^ 60"
    by (rule bounded_byE)
  have "bounded_by (10 ^ 23) (f_mul ?L (delta s) p_inventory)"
    by (rule bounded_mul[where A = "10 ^ 3" and B' = "10 ^ 20"]) (use de p_inventory in simp_all)
  then obtain t4 where t4: "f_mul ?L (delta s) p_inventory = Inr t4" "\<bar>t4\<bar> \<le> 10 ^ 23"
    by (rule bounded_byE)
  have "bounded_by (10 ^ 61) (f_sub ?L t123 t4)"
    by (rule bounded_sub[where A = "10 ^ 60" and B' = "10 ^ 23"]) (use t123 t4 in simp_all)
  then obtain total' where total': "f_sub ?L t123 t4 = Inr total'" "\<bar>total'\<bar> \<le> 10 ^ 61"
    by (rule bounded_byE)
  have "compute_reward_fl ?L s (current_price m) cp m
          = Inr (total', r_profit, p_competitive, p_stability, p_inventory)"
    by (simp only: compute_reward_fl_def estimate_cost_fl_def cost(1) demand(1) margin(1)
          profit(1) scale(1) r_profit(1) diff(1) comp_ratio(1) p_competitive(1) change(1)
          price_change(1) p_stability(1) p_inventory(1) t1(1) t2(1) t12(1) t3(1) t123(1)
          t4(1) total'(1) and_then_Inr)
  then show ?thesis by blast
qed

lemma bounded_Inr: "\<bar>v\<bar> \<le> B \<Longrightarrow> bounded_by B (Inr v)"
  by (simp add: bounded_by_def)

lemma bounded_adjusted:
  assumes base: "\<bar>base\<bar> \<le> 10 ^ 9" and rng: "\<bar>rng\<bar> \<le> 1" and part: "\<bar>part\<bar> \<le> 1"
  shows "bounded_by (2 * 10 ^ 9) (adjusted (Some FLOAT_MAX) base up rng part)"
proof -
  let ?L = "Some FLOAT_MAX"
  have "bounded_by 1 (f_mul ?L rng part)"
    by (rule bounded_mul[where A = 1 and B' = 1]) (use rng part in simp_all)
  then obtain q where q: "f_mul ?L rng part = Inr q" "\<bar>q\<bar> \<le> 1"
    by (rule bounded_byE)
  have "bounded_by 2 (if up then f_add ?L 1 q else f_sub ?L 1 q)"
  proof (cases up)
    case True
    have "bounded_by 2 (f_add ?L 1 q)"
      by (rule bounded_add[where A = 1 and B' = 1]) (use q in simp_all)
    then show ?thesis using True by simp
  next
    case False
    have "bounded_by 2 (f_sub ?L 1 q)"
      by (rule bounded_sub[where A = 1 and B' = 1]) (use q in simp_all)
    then show ?thesis using False by simp
  qed
  then obtain k where k: "(if up then f_add ?L 1 q else f_sub ?L 1 q) = Inr k" "\<bar>k\<bar> \<le> 2"
    by (rule bounded_byE)
  have "bounded_by (2 * 10 ^ 9) (f_mul ?L base k)"
    by (rule bounded_mul[where A = "10 ^ 9" and B' = 2]) (use base k in simp_all)
  then show ?thesis by (simp only: adjusted_def q(1) k(1) and_then_Inr)
qed

lemma collect_bounded:
  "list_all (bounded_by B) rs
   \<Longrightarrow> \<exists>vs. collect rs = Inr vs \<and> list_all (\<lambda>v. \<bar>v\<bar> \<le> B) vs"
proof (induction rs)
  case Nil
  show ?case by simp
next
  case (Cons r rs)
  from Cons.prems have "bounded_by B r" by simp
  then obtain v where v: "r = Inr v" "\<bar>v\<bar> \<le> B" by (rule bounded_byE)
  from Cons obtain vs where vs: "collect rs = Inr vs" "list_all (\<lambda>v. \<bar>v\<bar> \<le> B) vs" by auto
  have "collect (r # rs) = Inr (v # vs)" by (simp add: v(1) vs(1) and_then_Inr)
  then show ?case using v(2) vs(2) by simp
qed

lemma candidates_in_range:
  assumes wr: "within_range s m"
  shows "candidates_fl (Some FLOAT_MAX) s m = Inr (candidates s m)
         \<and> list_all (\<lambda>v. \<bar>v\<bar> \<le> 2 * 10 ^ 9) (candidates s m)"
proof -
  let ?L = "Some FLOAT_MAX"
  let ?B = "2 * 10 ^ 9 :: real"
  from wr have base: "\<bar>current_price m\<bar> \<le> 10 ^ 9"
    and comp: "\<bar>competitor_price m\<bar> \<le> 10 ^ 9"
    and rng: "\<bar>price_adjustment_range s\<bar> \<le> 1"
    by (simp_all add: within_range_def)
  have i1: "bounded_by ?B (Inr (current_price m))" using base by (intro bounded_Inr) simp
  have i2: "bounded_by ?B (Inr (competitor_price m))" using comp by (intro bounded_Inr) simp
  have a25: "bounded_by ?B (adjusted ?L (current_price m) up (price_adjustment_range s) 0.25)" for up
    by (rule bounded_adjusted[OF base rng]) simp
  have a50: "bounded_by ?B (adjusted ?L (current_price m) up (price_adjustment_range s) 0.50)" for up
    by (rule bounded_adjusted[OF base rng]) simp
  have a75: "bounded_by ?B (adjusted ?L (current_price m) up (price_adjustment_range s) 0.75)" for up
    by (rule bounded_adjusted[OF base rng]) simp
  have c1: "bounded_by ?B (f_mul ?L (competitor_price m) 0.98)"
    by (rule bounded_mul[where A = "10 ^ 9" and B' = 2]) (use comp in simp_all)
  have c2: "bounded_by ?B (f_mul ?L (competitor_price m) 1.02)"
    by (rule bounded_mul[where A = "10 ^ 9" and B' = 2]) (use comp in simp_all)
  have "list_all (bounded_by ?B)
        [Inr (current_price m),
         adjusted ?L (current_price m) False (price_adjustment_range s) 0.25,
         adjusted ?L (current_price m) False (price_adjustment_range s) 0.50,
         adjusted ?L (current_price m) False (price_adjustment_range s) 0.75,
         adjusted ?L (current_price m) True (price_adjustment_range s) 0.25,
         adjusted ?L (current_price m) True (price_adjustment_range s) 0.50,
         adjusted ?L (current_price m) True (price_adjustment_range s) 0.75,
         Inr (competitor_price m),
         f_mul ?L (competitor_price m) 0.98,
         f_mul ?L (competitor_price m) 1.02]"
    by (simp only: list.pred_inject i1 i2 a25 a50 a75 c1 c2 simp_thms)
  then have "\<exists>vs. candidates_fl ?L s m = Inr vs \<and> list_all (\<lambda>v. \<bar>v\<bar> \<le> ?B) vs"
    unfolding candidates_fl_def Let_def by (rule collect_bounded)
  then obtain vs where vs: "candidates_fl ?L s m = Inr vs" "list_all (\<lambda>v. \<bar>v\<bar> \<le> ?B) vs"
    by blast
  from agrees_candidates[of ?L s m] vs(1) have "vs = candidates s m"
    by (simp add: agrees_def)
  with vs show ?thesis by simp
qed

lemma floored_le:
  assumes "c \<le> 2 * 10 ^ 9"
  shows "floored c \<le> 3 * 10 ^ 9"
proof -
  define x where "x = max 0.01 c"
  have x: "x \<le> 2 * 10 ^ 9" using assms by (simp add: x_def)
  have "of_int (round_half_even (x * 10 ^ 2)) \<le> x * 10 ^ 2 + 1 / 2"
    by (rule conjunct1[OF round_half_even_bounds])
  then have "of_int (round_half_even (x * 10 ^ 2)) / 10 ^ 2 \<le> (x * 10 ^ 2 + 1 / 2) / 10 ^ 2"
    by (intro divide_right_mono) auto
  also have "\<dots> = x + 1 / 200" by (simp add: add_divide_distrib)
  also have "\<dots> \<le> 3 * 10 ^ 9" using x by simp
  finally show ?thesis by (simp only: floored_def py_round_def x_def)
qed

lemma search_fl_in_range:
  assumes wr: "within_range s m"
  shows "list_all (\<lambda>v. \<bar>v\<bar> \<le> 2 * 10 ^ 9) cs
         \<Longrightarrow> search_fl (Some FLOAT_MAX) s m cs st = search s m cs st"
proof (induction cs arbitrary: st)
  case Nil
  show ?case by simp
next
  case (Cons c cs)
  obtain bp br where st: "st = (bp, br)" by (cases st)
  from Cons.prems have c: "\<bar>c\<bar> \<le> 2 * 10 ^ 9" and rest: "list_all (\<lambda>v. \<bar>v\<bar> \<le> 2 * 10 ^ 9) cs"
    by simp_all
  have lo: "0.01 \<le> floored c" unfolding floored_def by (rule floored_ge)
  have hi: "floored c \<le> 3 * 10 ^ 9" using c by (intro floored_le) simp
  from compute_reward_fl_returns[OF wr lo hi] obtain v
    where "compute_reward_fl (Some FLOAT_MAX) s (current_price m) (floored c) m = Inr v" by blast
  then have fl: "compute_reward_fl (Some FLOAT_MAX) s (current_price m) (py_round (max 0.01 c) 2) m = Inr v"
    by (simp only: floored_def)
  with agrees_compute_reward[of "Some FLOAT_MAX" s "current_price m" "py_round (max 0.01 c) 2" m]
  have ex: "compute_reward s (current_price m) (py_round (max 0.01 c) 2) m = Inr v"
    by (simp add: agrees_def)
  obtain reward rest' where v: "v = (reward, rest')" by (cases v)
  show ?case
    unfolding st search_fl.simps search.simps Let_def fl ex v using Cons.IH[OF rest] by simp
qed

lemma suggest_price_fl_in_range:
  assumes wr: "within_range s m"
  shows "suggest_price_fl (Some FLOAT_MAX) s product m = suggest_price s product m"
proof -
  from candidates_in_range[OF wr]
  have cs: "candidates_fl (Some FLOAT_MAX) s m = Inr (candidates s m)"
    and b: "list_all (\<lambda>v. \<bar>v\<bar> \<le> 2 * 10 ^ 9) (candidates s m)" by simp_all
  show ?thesis
    by (simp only: suggest_price_fl_def suggest_price_def cs and_then_Inr
          search_fl_in_range[OF wr b])
qed

lemma suggest_price_fl_value:
  assumes "suggest_price_fl fmx s product m = Inr p"
  shows "0.01 \<le> p \<and> p \<in> set (map floored (candidates s m))"
proof -
  from agrees_suggest_price[of fmx s product m] assms
  have sp: "suggest_price s product m = Inr p" by (simp add: agrees_def)
  obtain i where i: "i < 10" and spi: "suggest_price s product m = Inr (floored (candidates s m ! i))"
    using suggest_price_argmax [of s product m] by blast
  from sp spi have p: "p = floored (candidates s m ! i)" by simp
  have "floored (candidates s m ! i) \<in> set (map floored (candidates s m))"
    using i by (simp add: length_candidates)
  moreover have "0.01 \<le> floored (candidates s m ! i)"
    unfolding floored_def by (rule floored_ge)
  ultimately show ?thesis by (simp only: p)
qed

lemma search_fl_first:
  "compute_reward_fl fmx s (current_price m) (floored cand) m = Inr (reward, rest)
   \<Longrightarrow> search_fl fmx s m [cand] (bp, None) = Inr (floored cand, Some reward)"
  by (simp only: search_fl.simps floored_def Let_def) simp

lemma example_suggest_price:
  "suggest_price default_settings example_product example_market = Inr 11.12"
proof -
  let ?F = "\<lambda>j. floored (candidates default_settings example_market ! j)"
  let ?sc = "score default_settings example_market"
  have len: "length (candidates default_settings example_market) = 10"
    by (simp add: candidates_def Let_def)
  have F: "?F j = [10, 9.62, 9.25, 8.88, 10.38, 10.75, 11.12, 20, 19.6, 20.4] ! j" if "j < 10" for j
    using that len nth_map[of j "candidates default_settings example_market" floored] example_floored by simp
  obtain i where i: "i < 10"
    and sp: "suggest_price default_settings example_product example_market = Inr (?F i)"
    and mx: "\<forall>j < 10. ?sc (?F j) \<le> ?sc (?F i)"
    using suggest_price_argmax [of default_settings example_product example_market] by blast
  have six: "?F 6 = 11.12" using F[of 6] by simp
  have "?sc (?F 6) \<le> ?sc (?F i)" using mx by simp
  then have "?sc 11.12 \<le> ?sc (?F i)" by (simp only: six)
  moreover have "?F i \<in> set [10, 9.62, 9.25, 8.88, 10.38, 10.75, 20, 19.6, 20.4] \<or> ?F i = 11.12"
  proof -
    from i have "i = 0 \<or> i = 1 \<or> i = 2 \<or> i = 3 \<or> i = 4 \<or> i = 5 \<or> i = 6
        \<or> i = 7 \<or> i = 8 \<or> i = 9" by arith
    then show ?thesis by (elim disjE) (simp_all add: F)
  qed
  ultimately have "?F i = 11.12" using example_best by fastforce
  with sp show ?thesis by simp
qed

lemma example_within_range: "within_range default_settings example_market"
  by (simp add: within_range_def default_settings_def example_market_def)

lemma example_first_score:
  "\<exists>v. compute_reward_fl (Some FLOAT_MAX) default_settings (current_price example_market)
         (floored 10) example_market = Inr v"
proof -
  have lo: "0.01 \<le> floored 10" unfolding floored_def by (rule floored_ge)
  have hi: "floored 10 \<le> 3 * 10 ^ 9" by (rule floored_le) simp
  show ?thesis by (rule compute_reward_fl_returns[OF example_within_range lo hi])
qed

section \<open>Properties of the simulation\<close>

lemma suggest_price_returns: "\<exists>p. suggest_price s product m = Inr p"
  by (simp add: suggest_price_def search_fold split: prod.splits)

lemma simulate_step_returns:
  "\<exists>a m' g' c'. simulate_step h s product m old_price g c = Inr (a, m', g', c')"
proof -
  obtain p where p: "suggest_price s product m = Inr p" using suggest_price_returns by blast
  obtain t r pc ps pi where cr: "compute_reward s old_price p m = Inr (t, r, pc, ps, pi)"
    using compute_reward_returns by blast
  show ?thesis
    unfolding simulate_step_def by (simp add: p cr Let_def split: prod.splits)
qed

lemma run_loop_length:
  "\<exists>acts' cp' m' prices' g' c'.
     run_loop h s product n step (acts, cp, m, prices, g, c) = Inr (acts', cp', m', prices', g', c')
     \<and> length acts' = length acts + n"
proof (induction n arbitrary: step acts cp m prices g c)
  case 0
  show ?case by simp
next
  case (Suc n)
  obtain a m1 g1 c1 where st: "simulate_step h s product m cp g c = Inr (a, m1, g1, c1)"
    using simulate_step_returns [of h s product m cp g c] by blast
  from Suc.IH[of "step + 1" "acts @ [a\<lparr>pa_step := step + 1\<rparr>]" "pa_new_price a" m1
      "prices @ [pa_new_price a]" g1 c1]
  show ?case by (simp add: st Let_def)
qed

lemma erase_market_eq:
  "erase_market m1 = erase_market m2 \<Longrightarrow> m1 = m2\<lparr>ms_timestamp := ms_timestamp m1\<rparr>"
  by (cases m1, cases m2) (simp add: erase_market_def)

lemma compute_reward_ts: "compute_reward s old new (m\<lparr>ms_timestamp := t\<rparr>) = compute_reward s old new m"
  by (simp add: compute_reward_total demand_function_total)

lemma score_ts: "score s (m\<lparr>ms_timestamp := t\<rparr>) cp = score s m cp"
  by (simp add: score_def compute_reward_ts)

lemma suggest_price_ts: "suggest_price s product (m\<lparr>ms_timestamp := t\<rparr>) = suggest_price s product m"
  by (simp add: suggest_price_def search_fold score_ts candidates_def Let_def cong: if_cong)

lemma simulate_step_ts:
  "map_sum id erase_step (simulate_step h s product (m\<lparr>ms_timestamp := t\<rparr>) old_price g c1)
     = map_sum id erase_step (simulate_step h s product m old_price g c2)"
proof -
  obtain p where p: "suggest_price s product m = Inr p" using suggest_price_returns by blast
  obtain tt r pc ps pi where cr: "compute_reward s old_price p m = Inr (tt, r, pc, ps, pi)"
    using compute_reward_returns by blast
  show ?thesis
    unfolding simulate_step_def
    by (simp add: suggest_price_ts compute_reward_ts p cr Let_def pa_post_init_def ms_post_init_def
          erase_action_def erase_market_def split: prod.splits)
qed

lemma simulate_step_erased:
  assumes "erase_market m1 = erase_market m2"
  shows "map_sum id erase_step (simulate_step h s product m1 old_price g c1)
     = map_sum id erase_step (simulate_step h s product m2 old_price g c2)"
proof -
  have "m1 = m2\<lparr>ms_timestamp := ms_timestamp m1\<rparr>" using assms by (rule erase_market_eq)
  then show ?thesis using simulate_step_ts[where m = m2 and t = "ms_timestamp m1"] by simp
qed

lemma erase_action_new_price: "erase_action a = erase_action b \<Longrightarrow> pa_new_price a = pa_new_price b"
  by (cases a, cases b) (simp add: erase_action_def)

lemma erase_action_step:
  "erase_action a = erase_action b \<Longrightarrow> erase_action (a\<lparr>pa_step := k\<rparr>) = erase_action (b\<lparr>pa_step := k\<rparr>)"
  by (cases a, cases b) (simp add: erase_action_def)

lemma run_loop_erased:
  "erase_state st1 = erase_state st2 \<Longrightarrow>
   map_sum id erase_state (run_loop h s product n step st1)
     = map_sum id erase_state (run_loop h s product n step st2)"
proof (induction n arbitrary: step st1 st2)
  case 0
  then show ?case by simp
next
  case (Suc n)
  obtain a1 p1 m1 ps1 g1 c1 where st1: "st1 = (a1, p1, m1, ps1, g1, c1)" by (cases st1)
  obtain a2 p2 m2 ps2 g2 c2 where st2: "st2 = (a2, p2, m2, ps2, g2, c2)" by (cases st2)
  from Suc.prems have eqs: "map erase_action a1 = map erase_action a2" "p1 = p2"
    "erase_market m1 = erase_market m2" "ps1 = ps2" "g1 = g2"
    by (simp_all add: st1 st2)
  obtain x1 n1 h1 d1 where s1: "simulate_step h s product m1 p1 g1 c1 = Inr (x1, n1, h1, d1)"
    using simulate_step_returns [of h s product m1 p1 g1 c1] by blast
  obtain x2 n2 h2 d2 where s2: "simulate_step h s product m2 p2 g2 c2 = Inr (x2, n2, h2, d2)"
    using simulate_step_returns [of h s product m2 p2 g2 c2] by blast
  from simulate_step_erased[OF eqs(3), of h s product p1 g1 c1 c2] s1 s2 eqs
  have se: "erase_action x1 = erase_action x2" "erase_market n1 = erase_market n2" "h1 = h2"
    by simp_all
  have np: "pa_new_price x1 = pa_new_price x2" using se(1) by (rule erase_action_new_price)
  have "erase_state (a1 @ [x1\<lparr>pa_step := step + 1\<rparr>], pa_new_price x1, n1, ps1 @ [pa_new_price x1], h1, d1)
      = erase_state (a2 @ [x2\<lparr>pa_step := step + 1\<rparr>], pa_new_price x2, n2, ps2 @ [pa_new_price x2], h2, d2)"
    using eqs se np erase_action_step[OF se(1), of "step + 1"] by simp
  from Suc.IH[OF this, of "step + 1"] show ?case
    by (simp add: st1 st2 s1 s2 Let_def)
qed

lemma map_erase_reward: "map pa_reward (map erase_action xs) = map pa_reward xs"
  by (simp add: erase_action_def)

lemma run_simulation_returns:
  "\<exists>r g' c'. run_simulation h s product m steps g c = Inr (r, g', c')"
proof -
  define n where "n = (case steps of None \<Rightarrow> default_steps s | Some k \<Rightarrow> if k = 0 then default_steps s else k)"
  obtain acts' cp' m' prices' g' c' where
    rl: "run_loop h s product (nat n) 0 ([], current_price m, m, [current_price m], g, c)
           = Inr (acts', cp', m', prices', g', c')"
    using run_loop_length [of h s product "nat n" 0 "[]" "current_price m" m "[current_price m]" g c]
    by blast
  show ?thesis
    by (simp add: run_simulation_def n_def[symmetric] rl py_div_def Let_def)
qed

lemma simulate_step_timestamp:
  assumes "simulate_step h s product m old_price g c = Inr (a, m', g', c')"
  shows "pa_timestamp a = fst (now_isoformat h c)"
proof -
  obtain p where p: "suggest_price s product m = Inr p" using suggest_price_returns by blast
  obtain tt r pc ps pi where cr: "compute_reward s old_price p m = Inr (tt, r, pc, ps, pi)"
    using compute_reward_returns by blast
  from assms show ?thesis
    unfolding simulate_step_def
    by (auto simp: p cr Let_def pa_post_init_def ms_post_init_def split: prod.splits)
qed

lemma run_simulation_one_timestamp:
  assumes "run_simulation h s product m (Some 1) g c = Inr (r, g', c')"
  shows "map pa_timestamp (sr_actions r) = [fst (now_isoformat h c)]"
proof -
  obtain a m1 g1 c1 where st: "simulate_step h s product m (current_price m) g c = Inr (a, m1, g1, c1)"
    using simulate_step_returns [of h s product m "current_price m" g c] by blast
  have ts: "pa_timestamp a = fst (now_isoformat h c)" using st by (rule simulate_step_timestamp)
  have "run_loop h s product (Suc 0) 0 ([], current_price m, m, [current_price m], g, c)
      = Inr ([a\<lparr>pa_step := 1\<rparr>], pa_new_price a, m1, [current_price m, pa_new_price a], g1, c1)"
    by (simp add: st Let_def)
  with assms have "sr_actions r = [a\<lparr>pa_step := 1\<rparr>]"
    by (auto simp: run_simulation_def py_div_def Let_def)
  then show ?thesis using ts by simp
qed

section \<open>Properties of ingestion and aggregation\<close>

lemma py_setitem_length: "py_setitem xs j v = Inr ys \<Longrightarrow> length ys = length xs"
  by (auto simp: py_setitem_def split: if_splits)

lemma py_setitem_in_range:
  "0 \<le> j \<Longrightarrow> j < int (length xs) \<Longrightarrow> py_setitem xs j v = Inr (xs[nat j := v])"
  by (simp add: py_setitem_def nat_less_iff)

lemma ingest_append:
  "ingest lib cap i (rows1 @ rows2) st =
     (case ingest lib cap i rows1 st of
        Inl e \<Rightarrow> Inl e
      | Inr st' \<Rightarrow> ingest lib cap (i + length rows1) rows2 st')"
proof (induction rows1 arbitrary: i st)
  case Nil
  show ?case by simp
next
  case (Cons r rows1)
  obtain reservoir total_rows g where st: "st = (reservoir, total_rows, g)" by (cases st)
  show ?case
    by (simp add: st Cons.IH split: sum.splits prod.splits)
qed

lemma ingest_counts:
  assumes "ingest lib cap i rows (reservoir, total_rows, g) = Inr (reservoir', total_rows', g')"
    and "length reservoir \<le> cap"
  shows "total_rows' = total_rows + int (length rows)
         \<and> length reservoir' = min cap (length reservoir + length rows)"
  using assms
proof (induction rows arbitrary: i reservoir total_rows g)
  case Nil
  then show ?case by simp
next
  case (Cons r rows)
  from Cons.prems(1) obtain product where mp: "make_product lib i r = Inr product"
    by (auto split: sum.splits)
  show ?case
  proof (cases "length reservoir < cap")
    case True
    with Cons.prems mp have
      "ingest lib cap (Suc i) rows (reservoir @ [product], total_rows + 1, g)
         = Inr (reservoir', total_rows', g')" by simp
    from Cons.IH[OF this] True show ?thesis by auto
  next
    case False
    with Cons.prems(2) have full: "length reservoir = cap" by simp
    obtain j g1 where rj: "py_randint lib g 0 (int i) = (j, g1)" by (cases "py_randint lib g 0 (int i)")
    show ?thesis
    proof (cases "j < int cap")
      case True
      with Cons.prems(1) mp False rj obtain res1 where
        si: "py_setitem reservoir j product = Inr res1"
        and rest: "ingest lib cap (Suc i) rows (res1, total_rows + 1, g1) = Inr (reservoir', total_rows', g')"
        by (auto split: sum.splits)
      have "length res1 = cap" using py_setitem_length[OF si] full by simp
      then have "length res1 \<le> cap" by simp
      from Cons.IH[OF rest this] \<open>length res1 = cap\<close> full show ?thesis by auto
    next
      case nj: False
      with Cons.prems(1) mp False rj have
        rest: "ingest lib cap (Suc i) rows (reservoir, total_rows + 1, g1) = Inr (reservoir', total_rows', g')"
        by simp
      from Cons.IH[OF rest Cons.prems(2)] full show ?thesis by auto
    qed
  qed
qed

lemma ingest_fill:
  assumes "length reservoir + length rows \<le> cap"
  shows "ingest lib cap i rows (reservoir, total_rows, g) = Inr (reservoir', total_rows', g')
         \<longleftrightarrow> map Inr reservoir' = map Inr reservoir @ map (\<lambda>(k, r). make_product lib k r) (enumerate i rows)
             \<and> total_rows' = total_rows + int (length rows) \<and> g' = g"
  using assms
proof (induction rows arbitrary: i reservoir total_rows)
  case Nil
  show ?case by (auto simp: inj_map_eq_map[OF inj_Inr])
next
  case (Cons r rows)
  show ?case
  proof (cases "make_product lib i r")
    case (Inl e)
    have "map Inr reservoir' \<noteq> map Inr reservoir @ Inl e # map (\<lambda>(k, r). make_product lib k r) (enumerate (Suc i) rows)"
    proof
      assume "map Inr reservoir' = map Inr reservoir @ Inl e # map (\<lambda>(k, r). make_product lib k r) (enumerate (Suc i) rows)"
      then have "Inl e \<in> set (map Inr reservoir')" by simp
      then show False by auto
    qed
    then show ?thesis using Inl by simp
  next
    case (Inr product)
    have lt: "length reservoir < cap" using Cons.prems by simp
    have le: "length (reservoir @ [product]) + length rows \<le> cap" using Cons.prems by simp
    show ?thesis
      using Cons.IH[OF le, of "Suc i" "total_rows + 1"] Inr lt by (simp add: add.assoc)
  qed
qed

lemma category_prices_Nil: "positive_prices (in_category c []) = []"
  by (simp add: positive_prices_def in_category_def)

lemma category_prices_Cons:
  "positive_prices (in_category c (p # ps))
     = (if p_category p = c \<and> 0 < p_price p then p_price p # positive_prices (in_category c ps)
        else positive_prices (in_category c ps))"
  by (simp add: positive_prices_def in_category_def)

lemma map_of_dict_set: "map_of (dict_set d k v) = (map_of d)(k \<mapsto> v)"
  by (induction d k v rule: dict_set.induct) auto

lemma dict_get_dict_set: "dict_get (dict_set d k v) c dflt = (if c = k then v else dict_get d c dflt)"
  by (simp add: dict_get_def map_of_dict_set)

lemma keys_dict_set:
  "map fst (dict_set d k v) = (if k \<in> set (map fst d) then map fst d else map fst d @ [k])"
  by (induction d k v rule: dict_set.induct) auto

lemma distinct_dict_set: "distinct (map fst d) \<Longrightarrow> distinct (map fst (dict_set d k v))"
  by (simp add: keys_dict_set)

lemma sum_dict_set:
  fixes d :: "int dict"
  shows "sum_list (map snd (dict_set d k (dict_get d k 0 + x))) = sum_list (map snd d) + x"
proof (induction d)
  case Nil
  show ?case by (simp add: dict_get_def)
next
  case (Cons kv d)
  obtain k' v' where kv: "kv = (k', v')" by (cases kv)
  show ?case
  proof (cases "k' = k")
    case True
    then show ?thesis by (simp add: kv dict_get_def)
  next
    case False
    then have "dict_get (kv # d) k 0 = dict_get d k 0" by (simp add: kv dict_get_def)
    then show ?thesis using False Cons.IH by (simp add: kv)
  qed
qed

lemma step_prices:
  "prices_acc (sweep_step p a) = prices_acc a @ (if 0 < p_price p then [p_price p] else [])"
  by (simp add: sweep_step_def Let_def)

lemma step_counts:
  "cat_counts (sweep_step p a)
     = dict_set (cat_counts a) (p_category p) (dict_get (cat_counts a) (p_category p) 0 + 1)"
  by (simp add: sweep_step_def Let_def)

lemma step_cnts:
  "cat_cnts (sweep_step p a)
     = (if 0 < p_price p
        then dict_set (cat_cnts a) (p_category p) (dict_get (cat_cnts a) (p_category p) 0 + 1)
        else cat_cnts a)"
  by (simp add: sweep_step_def Let_def)

lemma step_sums:
  "cat_sums (sweep_step p a)
     = (if 0 < p_price p
        then dict_set (cat_sums a) (p_category p) (dict_get (cat_sums a) (p_category p) 0 + p_price p)
        else cat_sums a)"
  by (simp add: sweep_step_def Let_def)

lemma step_mins:
  "map_of (cat_mins (sweep_step p a)) c
     = (if 0 < p_price p \<and> p_category p = c
        then Some (case map_of (cat_mins a) c of None \<Rightarrow> p_price p | Some mn \<Rightarrow> min mn (p_price p))
        else map_of (cat_mins a) c)"
  by (auto simp: sweep_step_def Let_def map_of_dict_set min_def split: option.splits)

lemma step_maxs:
  "map_of (cat_maxs (sweep_step p a)) c
     = (if 0 < p_price p \<and> p_category p = c
        then Some (case map_of (cat_maxs a) c of None \<Rightarrow> p_price p | Some mx \<Rightarrow> max mx (p_price p))
        else map_of (cat_maxs a) c)"
  by (auto simp: sweep_step_def Let_def map_of_dict_set max_def split: option.splits)

lemma sweep_prices:
  "prices_acc (sweep ps a) = prices_acc a @ positive_prices ps"
  by (induction ps arbitrary: a) (simp_all add: step_prices positive_prices_def)

lemma sweep_counts_sum:
  "sum_list (map snd (cat_counts (sweep ps a))) = sum_list (map snd (cat_counts a)) + int (length ps)"
  by (induction ps arbitrary: a) (simp_all add: step_counts sum_dict_set)

lemma sweep_counts_get:
  "dict_get (cat_counts (sweep ps a)) c 0
     = dict_get (cat_counts a) c 0 + int (length (in_category c ps))"
  by (induction ps arbitrary: a) (auto simp: step_counts dict_get_dict_set in_category_def)

lemma sweep_counts_distinct:
  "distinct (map fst (cat_counts a)) \<Longrightarrow> distinct (map fst (cat_counts (sweep ps a)))"
  by (induction ps arbitrary: a) (simp_all add: step_counts distinct_dict_set)

lemma sweep_keys:
  "map fst (cat_sums a) = map fst (cat_cnts a)
   \<Longrightarrow> map fst (cat_sums (sweep ps a)) = map fst (cat_cnts (sweep ps a))"
  by (induction ps arbitrary: a) (simp_all add: step_sums step_cnts keys_dict_set)

lemma sweep_cnts_distinct:
  "distinct (map fst (cat_cnts a)) \<Longrightarrow> distinct (map fst (cat_cnts (sweep ps a)))"
  by (induction ps arbitrary: a) (simp_all add: step_cnts distinct_dict_set)

lemma sweep_cnts_map:
  "map_of (cat_cnts (sweep ps a)) c
     = (if positive_prices (in_category c ps) = [] then map_of (cat_cnts a) c
        else Some (dict_get (cat_cnts a) c 0 + int (length (positive_prices (in_category c ps)))))"
proof (induction ps arbitrary: a)
  case Nil
  show ?case by (simp add: category_prices_Nil)
next
  case (Cons p ps)
  show ?case
    unfolding sweep.simps Cons.IH category_prices_Cons
    by (simp add: step_cnts map_of_dict_set dict_get_dict_set)
qed

lemma sweep_sums_map:
  "map_of (cat_sums (sweep ps a)) c
     = (if positive_prices (in_category c ps) = [] then map_of (cat_sums a) c
        else Some (dict_get (cat_sums a) c 0 + sum_list (positive_prices (in_category c ps))))"
proof (induction ps arbitrary: a)
  case Nil
  show ?case by (simp add: category_prices_Nil)
next
  case (Cons p ps)
  show ?case
    unfolding sweep.simps Cons.IH category_prices_Cons
    by (simp add: step_sums map_of_dict_set dict_get_dict_set)
qed

lemma set_dict_set: "set (dict_set d k v) \<subseteq> insert (k, v) (set d)"
  by (induction d k v rule: dict_set.induct) auto

lemma sweep_cnts_positive:
  "\<forall>kv \<in> set (cat_cnts a). 0 < snd kv \<Longrightarrow> \<forall>kv \<in> set (cat_cnts (sweep ps a)). 0 < snd kv"
proof (induction ps arbitrary: a)
  case Nil
  then show ?case by simp
next
  case (Cons p ps)
  have nonneg: "0 \<le> dict_get (cat_cnts a) (p_category p) 0"
  proof (cases "map_of (cat_cnts a) (p_category p)")
    case None
    then show ?thesis by (simp add: dict_get_def)
  next
    case (Some n)
    then have "(p_category p, n) \<in> set (cat_cnts a)" by (rule map_of_SomeD)
    with Cons.prems have "0 < n" by auto
    with Some show ?thesis by (simp add: dict_get_def)
  qed
  have "\<forall>kv \<in> set (cat_cnts (sweep_step p a)). 0 < snd kv"
  proof
    fix kv assume kv: "kv \<in> set (cat_cnts (sweep_step p a))"
    show "0 < snd kv"
    proof (cases "0 < p_price p")
      case True
      with kv set_dict_set have
        "kv = (p_category p, dict_get (cat_cnts a) (p_category p) 0 + 1) \<or> kv \<in> set (cat_cnts a)"
        by (fastforce simp: step_cnts)
      then show ?thesis using nonneg Cons.prems by auto
    next
      case False
      with kv Cons.prems show ?thesis by (simp add: step_cnts)
    qed
  qed
  from Cons.IH[OF this] show ?case by simp
qed

text \<open>The running minimum and maximum of a category, from the accumulator on.\<close>

lemma sweep_mins_map:
  "map_of (cat_mins (sweep ps a)) c
     = fold (\<lambda>x m. Some (case m of None \<Rightarrow> x | Some mn \<Rightarrow> min mn x))
         (positive_prices (in_category c ps))
         (map_of (cat_mins a) c)"
  by (induction ps arbitrary: a) (simp_all add: step_mins category_prices_Nil category_prices_Cons)

lemma sweep_maxs_map:
  "map_of (cat_maxs (sweep ps a)) c
     = fold (\<lambda>x m. Some (case m of None \<Rightarrow> x | Some mx \<Rightarrow> max mx x))
         (positive_prices (in_category c ps))
         (map_of (cat_maxs a) c)"
  by (induction ps arbitrary: a) (simp_all add: step_maxs category_prices_Nil category_prices_Cons)

lemma fold_min_Some:
  fixes xs :: "real list"
  shows "fold (\<lambda>x m. Some (case m of None \<Rightarrow> x | Some mn \<Rightarrow> min mn x)) xs (Some y)
           = Some (Min (insert y (set xs)))"
proof (induction xs arbitrary: y)
  case Nil
  show ?case by simp
next
  case (Cons x xs)
  have "Min (insert (min y x) (set xs)) = Min (insert y (insert x (set xs)))"
    by (cases "xs = []") (simp_all add: min.assoc min.commute)
  then show ?case by (simp add: Cons.IH)
qed

lemma fold_min_None:
  fixes xs :: "real list"
  shows "fold (\<lambda>x m. Some (case m of None \<Rightarrow> x | Some mn \<Rightarrow> min mn x)) xs None
           = (if xs = [] then None else Some (Min (set xs)))"
  by (cases xs) (simp_all add: fold_min_Some)

lemma fold_max_Some:
  fixes xs :: "real list"
  shows "fold (\<lambda>x m. Some (case m of None \<Rightarrow> x | Some mx \<Rightarrow> max mx x)) xs (Some y)
           = Some (Max (insert y (set xs)))"
proof (induction xs arbitrary: y)
  case Nil
  show ?case by simp
next
  case (Cons x xs)
  have "Max (insert (max y x) (set xs)) = Max (insert y (insert x (set xs)))"
    by (cases "xs = []") (simp_all add: max.assoc max.commute)
  then show ?case by (simp add: Cons.IH)
qed

lemma fold_max_None:
  fixes xs :: "real list"
  shows "fold (\<lambda>x m. Some (case m of None \<Rightarrow> x | Some mx \<Rightarrow> max mx x)) xs None
           = (if xs = [] then None else Some (Max (set xs)))"
  by (cases xs) (simp_all add: fold_max_Some)

lemma avg_prices_ok:
  assumes "\<forall>kv \<in> set cnts. snd kv \<noteq> 0 \<and> fst kv \<in> fst ` set sums_d"
  shows "avg_prices sums_d cnts
           = Inr (map (\<lambda>kv. (fst kv, dict_get sums_d (fst kv) 0 / of_int (snd kv))) cnts)"
  using assms
proof (induction cnts)
  case Nil
  show ?case by simp
next
  case (Cons kv cnts)
  obtain c n where kv: "kv = (c, n)" by (cases kv)
  from Cons.prems kv have n: "n \<noteq> 0" and "c \<in> fst ` set sums_d" by auto
  then obtain sm where sm: "map_of sums_d c = Some sm"
    by (metis map_of_eq_None_iff not_Some_eq)
  from Cons.prems have "\<forall>kv \<in> set cnts. snd kv \<noteq> 0 \<and> fst kv \<in> fst ` set sums_d" by simp
  from Cons.IH[OF this] show ?case
    by (simp add: kv dict_getitem_def dict_get_def sm py_div_def n)
qed

lemma map_of_keyed_map:
  "map_of (map (\<lambda>kv. (fst kv, f (fst kv) (snd kv))) xs) c = map_option (f c) (map_of xs c)"
  by (induction xs) auto

lemma sum_insort_key:
  fixes g :: "'a \<Rightarrow> 'b :: comm_monoid_add"
  shows "sum_list (map g (insort_key f x xs)) = g x + sum_list (map g xs)"
  by (induction xs) (simp_all add: add.left_commute)

lemma sum_sort_key:
  fixes g :: "'a \<Rightarrow> 'b :: comm_monoid_add"
  shows "sum_list (map g (sort_key f xs)) = sum_list (map g xs)"
  by (induction xs) (simp_all add: sum_insort_key)

lemma map_of_sort_key:
  assumes "distinct (map fst xs)"
  shows "map_of (sort_key f xs) = map_of xs"
proof -
  from assms have d: "distinct xs" and i: "inj_on fst (set xs)" by (simp_all add: distinct_map)
  have "distinct (map fst (sort_key f xs))" using d i by (simp add: distinct_map)
  then show ?thesis using assms by (simp add: map_of_inject_set)
qed

lemma sorted_hd_Min:
  fixes xs :: "real list"
  assumes "sorted xs" "xs \<noteq> []"
  shows "hd xs = Min (set xs)"
proof -
  obtain y ys where xs: "xs = y # ys" using assms(2) by (cases xs) auto
  with assms(1) have "\<forall>z \<in> set xs. y \<le> z" by auto
  then have "Min (set xs) = y" using xs by (intro Min_eqI) auto
  then show ?thesis by (simp add: xs)
qed

lemma sorted_last_Max:
  fixes xs :: "real list"
  assumes "sorted xs" "xs \<noteq> []"
  shows "last xs = Max (set xs)"
proof -
  have "\<forall>z \<in> set xs. z \<le> last xs"
  proof
    fix z assume "z \<in> set xs"
    then obtain i where i: "i < length xs" "xs ! i = z" by (auto simp: in_set_conv_nth)
    then have "xs ! i \<le> xs ! (length xs - 1)"
      using assms by (intro sorted_nth_mono) auto
    then show "z \<le> last xs" using i assms(2) by (simp add: last_conv_nth)
  qed
  then have "Max (set xs) = last xs" using assms(2) by (intro Max_eqI) auto
  then show ?thesis by simp
qed

lemma sorted_median_between:
  fixes xs :: "real list"
  assumes "sorted xs" "xs \<noteq> []"
  shows "hd xs \<le> xs ! (length xs div 2) \<and> xs ! (length xs div 2) \<le> last xs"
proof -
  have n: "0 < length xs" using assms(2) by simp
  then have m: "length xs div 2 < length xs" by simp
  have "xs ! 0 \<le> xs ! (length xs div 2)" using assms(1) m by (intro sorted_nth_mono) auto
  moreover have "xs ! (length xs div 2) \<le> xs ! (length xs - 1)"
    using assms(1) n by (intro sorted_nth_mono) auto
  ultimately show ?thesis using assms(2) by (simp add: hd_conv_nth last_conv_nth)
qed

lemma py_pow_half: "0 \<le> v \<Longrightarrow> py_pow v 0.5 = Inr (sqrt v)"
  by (auto simp: py_pow_def powr_half_sqrt)

lemma price_stats_ok:
  "price_stats xs =
     Inr (if xs = [] then (0, 0, 0, 0, 0)
          else (sum_list (sort xs) / real (length xs),
                sort xs ! (length xs div 2),
                hd (sort xs),
                last (sort xs),
                sqrt (sum_list (map (\<lambda>x. (x - sum_list (sort xs) / real (length xs)) ^ 2) (sort xs))
                        / real (length xs))))"
proof (cases "xs = []")
  case True
  then show ?thesis by (simp add: price_stats_def)
next
  case False
  let ?avg = "sum_list (sort xs) / real (length xs)"
  let ?var = "sum_list (map (\<lambda>x. (x - ?avg) ^ 2) (sort xs)) / real (length xs)"
  have "0 \<le> sum_list (map (\<lambda>x. (x - ?avg) ^ 2) (sort xs))"
    by (intro sum_list_nonneg) auto
  then have "0 \<le> ?var" by simp
  then have "py_pow ?var 0.5 = Inr (sqrt ?var)" by (rule py_pow_half)
  moreover have "sort xs \<noteq> []" using False by (metis length_0_conv length_sort)
  ultimately show ?thesis using False by (simp add: price_stats_def py_div_def Let_def)
qed

lemma avg_prices_sweep:
  "avg_prices (cat_sums (sweep ps acc0)) (cat_cnts (sweep ps acc0))
     = Inr (map (\<lambda>kv. (fst kv, dict_get (cat_sums (sweep ps acc0)) (fst kv) 0 / of_int (snd kv)))
              (cat_cnts (sweep ps acc0)))"
proof (rule avg_prices_ok)
  have pos: "\<forall>kv \<in> set (cat_cnts (sweep ps acc0)). 0 < snd kv"
    by (rule sweep_cnts_positive) (simp add: acc0_def)
  have keys: "map fst (cat_sums (sweep ps acc0)) = map fst (cat_cnts (sweep ps acc0))"
    by (rule sweep_keys) (simp add: acc0_def)
  show "\<forall>kv \<in> set (cat_cnts (sweep ps acc0)).
          snd kv \<noteq> 0 \<and> fst kv \<in> fst ` set (cat_sums (sweep ps acc0))"
  proof
    fix kv assume kv: "kv \<in> set (cat_cnts (sweep ps acc0))"
    then have "fst kv \<in> set (map fst (cat_cnts (sweep ps acc0)))" by simp
    then have "fst kv \<in> set (map fst (cat_sums (sweep ps acc0)))" by (simp only: keys)
    then show "snd kv \<noteq> 0 \<and> fst kv \<in> fst ` set (cat_sums (sweep ps acc0))"
      using pos kv by auto
  qed
qed

lemma aggregate_ok:
  "aggregate reservoir total_rows =
     Inr \<lparr>pd_products = reservoir,
          pd_category_counts = sort_key (\<lambda>x. - snd x) (cat_counts (sweep reservoir acc0)),
          pd_category_avg_prices =
            map (\<lambda>kv. (fst kv, dict_get (cat_sums (sweep reservoir acc0)) (fst kv) 0 / of_int (snd kv)))
              (cat_cnts (sweep reservoir acc0)),
          pd_category_min_prices = cat_mins (sweep reservoir acc0),
          pd_category_max_prices = cat_maxs (sweep reservoir acc0),
          pd_total_products = int (length reservoir),
          pd_total_in_csv = total_rows,
          pd_priced_products = int (length (positive_prices reservoir)),
          pd_avg_price = fst (projr (price_stats (positive_prices reservoir))),
          pd_median_price = fst (snd (projr (price_stats (positive_prices reservoir)))),
          pd_min_price = fst (snd (snd (projr (price_stats (positive_prices reservoir))))),
          pd_max_price = fst (snd (snd (snd (projr (price_stats (positive_prices reservoir)))))),
          pd_std_price = snd (snd (snd (snd (projr (price_stats (positive_prices reservoir)))))),
          pd_zero_price_count = int (length reservoir) - int (length (positive_prices reservoir))\<rparr>"
proof -
  have pr: "prices_acc (sweep reservoir acc0) = positive_prices reservoir"
    by (simp add: sweep_prices acc0_def)
  obtain avg median mn mx std where
    ps: "price_stats (positive_prices reservoir) = Inr (avg, median, mn, mx, std)"
    using price_stats_ok[of "positive_prices reservoir"] by (metis prod_cases5)
  show ?thesis
    unfolding aggregate_def acc0_def[symmetric] Let_def
    by (simp add: avg_prices_sweep pr ps)
qed

lemma load_and_cache_miss:
  "load_and_cache lib None rows g =
     (case sample_rows lib MAX_PRODUCTS rows g of
        Inl e \<Rightarrow> Inl e
      | Inr (reservoir, total_rows, g') \<Rightarrow>
          map_sum id (\<lambda>d. (d, g')) (aggregate reservoir total_rows))"
  by (simp add: load_and_cache_def Let_def split: sum.splits prod.splits)

lemma load_and_cache_miss_Inr:
  "load_and_cache lib None rows g = Inr (d, g') \<longleftrightarrow>
     (\<exists>reservoir total_rows.
        sample_rows lib MAX_PRODUCTS rows g = Inr (reservoir, total_rows, g')
        \<and> aggregate reservoir total_rows = Inr d)"
  by (auto simp: load_and_cache_def Let_def split: sum.splits prod.splits)

lemma length_positive_prices:
  "length (positive_prices ps) = length (filter (\<lambda>p. 0 < p_price p) ps)"
  by (simp add: positive_prices_def filter_map comp_def)

lemma sort_eq_Nil: "(sort xs = []) = (xs = [])"
  by (metis length_0_conv length_sort)

section \<open>Claims\<close>

text \<open>
  C8. The classifier returns the label of the first rule, in declaration order, one of
  whose keywords occurs as a substring of the lower-cased name, and \<open>Other\<close> when no
  keyword of any rule occurs. For "Organic Chai Tea Bags" the label is "Coffee & Tea",
  although the keyword "organic" of the later Health & Wellness rule occurs too.
\<close>

theorem classify_first_match:
  "classify (lower name) =
     (case find (\<lambda>rule. \<exists>kw \<in> set (snd rule). occurs_in kw (lower name)) CAT_RULES of
        None \<Rightarrow> ''Other'' | Some rule \<Rightarrow> fst rule)
   \<and> classify (lower ''Organic Chai Tea Bags'') = ''Coffee & Tea''
   \<and> contains (lower ''Organic Chai Tea Bags'') ''organic''"
proof -
  have ex: "lower ''Organic Chai Tea Bags'' = ''organic chai tea bags''"
    by code_simp
  have "classify ''organic chai tea bags'' = ''Coffee & Tea''"
    by (simp add: classify_def CAT_RULES_def)
  moreover have "contains ''organic chai tea bags'' ''organic''"
    by simp
  ultimately show ?thesis
    by (simp add: ex classify_def classify_rules_find)
qed

text \<open>
  C7. \<^verbatim>\<open>suggest_price\<close> evaluates exactly ten candidates: the base price, the base price
  times \<open>1 \<plusminus> 0.25 r\<close>, \<open>1 \<plusminus> 0.50 r\<close> and \<open>1 \<plusminus> 0.75 r\<close>, the competitor price, and
  the competitor price times 0.98 and 1.02. Each is floored at 0.01 and rounded to two
  decimals, then scored by the reward function with the candidate as the new price and the
  base as the old price; scoring never fails. The price returned is the floored candidate
  at the first position whose total reward is the highest: no candidate scores higher and
  every earlier one scores strictly lower. The function takes no generator state, as the
  method never touches \<^verbatim>\<open>self._rng\<close>, so equal arguments give equal prices.
\<close>

theorem suggest_price_first_best:
  "candidates s m =
     [current_price m,
      current_price m * (1 - price_adjustment_range s * 0.25),
      current_price m * (1 - price_adjustment_range s * 0.50),
      current_price m * (1 - price_adjustment_range s * 0.75),
      current_price m * (1 + price_adjustment_range s * 0.25),
      current_price m * (1 + price_adjustment_range s * 0.50),
      current_price m * (1 + price_adjustment_range s * 0.75),
      competitor_price m,
      competitor_price m * 0.98,
      competitor_price m * 1.02]
   \<and> (\<forall>cp. \<exists>rest. compute_reward s (current_price m) cp m = Inr (score s m cp, rest))
   \<and> (\<exists>i < 10.
         suggest_price s product m = Inr (floored (candidates s m ! i))
         \<and> (\<forall>j < 10. score s m (floored (candidates s m ! j)) \<le> score s m (floored (candidates s m ! i)))
         \<and> (\<forall>j < i. score s m (floored (candidates s m ! j)) < score s m (floored (candidates s m ! i))))"
proof -
  have best: "\<exists>i < 10.
         suggest_price s product m = Inr (floored (candidates s m ! i))
         \<and> (\<forall>j < 10. score s m (floored (candidates s m ! j)) \<le> score s m (floored (candidates s m ! i)))
         \<and> (\<forall>j < i. score s m (floored (candidates s m ! j)) < score s m (floored (candidates s m ! i)))"
    by (rule suggest_price_argmax)
  have ret: "\<forall>cp. \<exists>rest. compute_reward s (current_price m) cp m = Inr (score s m cp, rest)"
  proof
    fix cp
    obtain t r pc ps pi where "compute_reward s (current_price m) cp m = Inr (t, r, pc, ps, pi)"
      using compute_reward_returns by blast
    then show "\<exists>rest. compute_reward s (current_price m) cp m = Inr (score s m cp, rest)"
      by (simp add: score_def)
  qed
  have cs: "candidates s m =
     [current_price m,
      current_price m * (1 - price_adjustment_range s * 0.25),
      current_price m * (1 - price_adjustment_range s * 0.50),
      current_price m * (1 - price_adjustment_range s * 0.75),
      current_price m * (1 + price_adjustment_range s * 0.25),
      current_price m * (1 + price_adjustment_range s * 0.50),
      current_price m * (1 + price_adjustment_range s * 0.75),
      competitor_price m,
      competitor_price m * 0.98,
      competitor_price m * 1.02]"
    by (simp only: candidates_def Let_def)
  from cs ret best show ?thesis by (intro conjI)
qed

theorem suggest_price_first_best_witness:
  "map floored (candidates default_settings example_market)
     = [10, 9.62, 9.25, 8.88, 10.38, 10.75, 11.12, 20, 19.6, 20.4]
   \<and> suggest_price default_settings example_product example_market = Inr 11.12"
proof -
  let ?F = "\<lambda>j. floored (candidates default_settings example_market ! j)"
  let ?sc = "score default_settings example_market"
  have len: "length (candidates default_settings example_market) = 10"
    by (simp add: candidates_def Let_def)
  have F: "?F j = [10, 9.62, 9.25, 8.88, 10.38, 10.75, 11.12, 20, 19.6, 20.4] ! j" if "j < 10" for j
    using that len nth_map[of j "candidates default_settings example_market" floored] example_floored by simp
  obtain i where i: "i < 10"
    and sp: "suggest_price default_settings example_product example_market = Inr (?F i)"
    and mx: "\<forall>j < 10. ?sc (?F j) \<le> ?sc (?F i)"
    using suggest_price_first_best [of default_settings example_market example_product] by blast
  have six: "?F 6 = 11.12" using F[of 6] by simp
  have "?sc (?F 6) \<le> ?sc (?F i)" using mx by simp
  then have "?sc 11.12 \<le> ?sc (?F i)" by (simp only: six)
  moreover have "?F i \<in> set [10, 9.62, 9.25, 8.88, 10.38, 10.75, 20, 19.6, 20.4] \<or> ?F i = 11.12"
  proof -
    from i have "i = 0 \<or> i = 1 \<or> i = 2 \<or> i = 3 \<or> i = 4 \<or> i = 5 \<or> i = 6
        \<or> i = 7 \<or> i = 8 \<or> i = 9" by arith
    then show ?thesis by (elim disjE) (simp_all add: F)
  qed
  ultimately have "?F i = 11.12" using example_best by fastforce
  with sp example_floored show ?thesis by simp
qed

text \<open>
  C10, as amended. \<^verbatim>\<open>suggest_price\<close> is scored against the range of the floats.

  \<^item> Within \<open>within_range\<close> (prices between one cent and \<open>10 ^ 9\<close>, the other market values
    and the weights bounded) \<^verbatim>\<open>suggest_price\<close> returns; the price is at least 0.01 and
    is one of the floored candidates.
  \<^item> For every product, every market state and every range, leaving the range is the only
    way in which \<^verbatim>\<open>suggest_price\<close> fails: it raises neither \<^verbatim>\<open>ZeroDivisionError\<close> nor
    the \<^verbatim>\<open>TypeError\<close> of a complex power.
  \<^item> Whenever it returns, the price is at least 0.01 and is one of the floored candidates.
  \<^item> The demand function returns 0 when either price is not positive.
  \<^item> When the first candidate has a reward, that reward replaces the initial minus
    infinity.
\<close>

theorem suggest_price_in_range:
  "(within_range s m \<longrightarrow>
      (\<exists>p. suggest_price_fl (Some FLOAT_MAX) s product m = Inr p
           \<and> 0.01 \<le> p \<and> p \<in> set (map floored (candidates s m))))
   \<and> (\<forall>err. suggest_price_fl fmx s product m = Inl err
          \<longrightarrow> err = OverflowError \<or> err = NotFinite)
   \<and> (\<forall>p. suggest_price_fl fmx s product m = Inr p
          \<longrightarrow> 0.01 \<le> p \<and> p \<in> set (map floored (candidates s m)))
   \<and> (base_price \<le> 0 \<or> price \<le> 0
        \<longrightarrow> demand_function_fl fmx price base_price e se en = Inr 0)
   \<and> (\<forall>reward rest.
        compute_reward_fl fmx s (current_price m) (floored cand) m = Inr (reward, rest)
        \<longrightarrow> search_fl fmx s m [cand] (bp, None) = Inr (floored cand, Some reward))"
proof -
  have a: "within_range s m \<longrightarrow>
      (\<exists>p. suggest_price_fl (Some FLOAT_MAX) s product m = Inr p
           \<and> 0.01 \<le> p \<and> p \<in> set (map floored (candidates s m)))"
  proof
    assume wr: "within_range s m"
    obtain i where "suggest_price s product m = Inr (floored (candidates s m ! i))"
      using suggest_price_argmax [of s product m] by blast
    then have "suggest_price_fl (Some FLOAT_MAX) s product m = Inr (floored (candidates s m ! i))"
      by (simp only: suggest_price_fl_in_range[OF wr])
    then show "\<exists>p. suggest_price_fl (Some FLOAT_MAX) s product m = Inr p
           \<and> 0.01 \<le> p \<and> p \<in> set (map floored (candidates s m))"
      using suggest_price_fl_value[of "Some FLOAT_MAX" s product m] by blast
  qed
  have b: "\<forall>err. suggest_price_fl fmx s product m = Inl err
          \<longrightarrow> err = OverflowError \<or> err = NotFinite"
    using range_only_suggest_price[of fmx s product m] by (auto simp: range_only_def)
  have c: "\<forall>p. suggest_price_fl fmx s product m = Inr p
          \<longrightarrow> 0.01 \<le> p \<and> p \<in> set (map floored (candidates s m))"
    using suggest_price_fl_value[of fmx s product m] by blast
  have d: "base_price \<le> 0 \<or> price \<le> 0
        \<longrightarrow> demand_function_fl fmx price base_price e se en = Inr 0"
    by (simp add: demand_function_fl_def)
  have e: "\<forall>reward rest.
        compute_reward_fl fmx s (current_price m) (floored cand) m = Inr (reward, rest)
        \<longrightarrow> search_fl fmx s m [cand] (bp, None) = Inr (floored cand, Some reward)"
    using search_fl_first[of fmx s m cand _ _ bp] by blast
  from a b c d e show ?thesis by (intro conjI)
qed

theorem suggest_price_in_range_witness:
  "within_range default_settings example_market
   \<and> suggest_price_fl (Some FLOAT_MAX) default_settings example_product example_market = Inr 11.12
   \<and> suggest_price_fl (Some FLOAT_MAX) default_settings example_product overflow_market
       = Inl OverflowError
   \<and> (0 :: real) \<le> 0
   \<and> demand_function_fl (Some FLOAT_MAX) 0 5 (- 3 / 2) 1 1 = Inr 0
   \<and> f_pow (Some FLOAT_MAX) (0 / 5) (- 3 / 2) = Inl ZeroDivisionError
   \<and> (\<exists>reward. search_fl (Some FLOAT_MAX) default_settings example_market [10] (0, None)
         = Inr (floored 10, Some reward))"
proof -
  note inst = suggest_price_in_range [of default_settings example_market example_product
      "Some FLOAT_MAX" 5 0 "- 3 / 2" 1 1 10 0]
  from inst example_within_range obtain p
    where p: "suggest_price_fl (Some FLOAT_MAX) default_settings example_product example_market = Inr p"
    by blast
  with agrees_suggest_price[of "Some FLOAT_MAX" default_settings example_product example_market]
  have "suggest_price default_settings example_product example_market = Inr p"
    by (simp add: agrees_def)
  then have "p = 11.12" by (simp add: example_suggest_price)
  with p have v: "suggest_price_fl (Some FLOAT_MAX) default_settings example_product example_market
      = Inr 11.12" by simp
  have g: "demand_function_fl (Some FLOAT_MAX) 0 5 (- 3 / 2) 1 1 = Inr 0"
    using inst by simp
  have z: "f_pow (Some FLOAT_MAX) (0 / 5) (- 3 / 2) = Inl ZeroDivisionError"
    by (simp add: f_pow_def)
  obtain reward rest
    where "compute_reward_fl (Some FLOAT_MAX) default_settings (current_price example_market)
         (floored 10) example_market = Inr (reward, rest)"
    using example_first_score by (metis surj_pair)
  with inst have f: "\<exists>reward. search_fl (Some FLOAT_MAX) default_settings example_market [10] (0, None)
         = Inr (floored 10, Some reward)" by blast
  from example_within_range v overflow_suggest_price g z f show ?thesis by (intro conjI) simp_all
qed

text \<open>
  C10 as it was stated (for every finite market state with a positive current price
  \<^verbatim>\<open>suggest_price\<close> never raises) fails: at a current price of \<open>10 ^ 200\<close> and a competitor
  price of 1 the first candidate is \<open>10 ^ 200\<close>, the competitive penalty is
  \<^verbatim>\<open>((1e200 - 1) / 1.0) ** 2\<close>, and \<^verbatim>\<open>**\<close> raises \<^verbatim>\<open>OverflowError\<close>.
\<close>

theorem suggest_price_overflow_counterexample:
  "0 < current_price overflow_market
   \<and> current_price overflow_market \<le> FLOAT_MAX
   \<and> suggest_price_fl (Some FLOAT_MAX) default_settings example_product overflow_market
       = Inl OverflowError"
  using overflow_market_finite overflow_suggest_price by simp

text \<open>
  C9, as amended. The tuple of \<^verbatim>\<open>compute_reward\<close> holds the competitive penalty and the
  stability penalty. With the market state and \<open>old_price\<close> fixed, the competitive penalty is
  strictly increasing in \<open>new_price\<close> above the competitor price; and with the market state
  and \<open>old_price\<close> fixed, the stability penalty is strictly increasing in
  \<open>\<bar>new_price - old_price\<bar>\<close>.
\<close>

theorem penalties_monotone:
  "(\<exists>t r pi. compute_reward s old_price new_price m
        = Inr (t, r, competitive_penalty s old_price new_price m,
               stability_penalty s old_price new_price m, pi))
   \<and> (competitor_price m < np1 \<and> np1 < np2
        \<longrightarrow> competitive_penalty s old_price np1 m < competitive_penalty s old_price np2 m)
   \<and> (\<bar>np1 - old_price\<bar> < \<bar>np2 - old_price\<bar>
        \<longrightarrow> stability_penalty s old_price np1 m < stability_penalty s old_price np2 m)"
proof -
  have a: "\<exists>t r pi. compute_reward s old_price new_price m
        = Inr (t, r, competitive_penalty s old_price new_price m,
               stability_penalty s old_price new_price m, pi)"
    by (simp add: competitive_penalty_def stability_penalty_def compute_reward_total demand_function_total)
  have b: "competitive_penalty s old_price np1 m < competitive_penalty s old_price np2 m"
    if "competitor_price m < np1" "np1 < np2"
  proof -
    have pos: "0 < max 1 (competitor_price m)" by simp
    have nn: "0 \<le> max 0 (np1 - competitor_price m) / max 1 (competitor_price m)"
      by simp
    have lt: "max 0 (np1 - competitor_price m) / max 1 (competitor_price m)
        < max 0 (np2 - competitor_price m) / max 1 (competitor_price m)"
      using that by (intro divide_strict_right_mono pos) simp
    show ?thesis
      unfolding competitive_penalty_eq using power_strict_mono [OF lt nn, of 2] by simp
  qed
  have c: "stability_penalty s old_price np1 m < stability_penalty s old_price np2 m"
    if "\<bar>np1 - old_price\<bar> < \<bar>np2 - old_price\<bar>"
  proof -
    have pos: "0 < max 1 old_price" by simp
    have nn: "0 \<le> \<bar>np1 - old_price\<bar> / max 1 old_price" by simp
    have lt: "\<bar>np1 - old_price\<bar> / max 1 old_price < \<bar>np2 - old_price\<bar> / max 1 old_price"
      using that by (intro divide_strict_right_mono pos)
    show ?thesis
      unfolding stability_penalty_eq using power_strict_mono [OF lt nn, of 2] by simp
  qed
  from a b c show ?thesis by blast
qed

theorem penalties_monotone_witness:
  "competitor_price example_market < 21 \<and> (21 :: real) < 22
   \<and> competitive_penalty default_settings 10 21 example_market
       < competitive_penalty default_settings 10 22 example_market
   \<and> \<bar>21 - 10\<bar> < \<bar>22 - (10 :: real)\<bar>
   \<and> stability_penalty default_settings 10 21 example_market
       < stability_penalty default_settings 10 22 example_market"
proof -
  have h1: "competitor_price example_market < 21 \<and> (21 :: real) < 22"
    by (simp add: example_market_def)
  have h2: "\<bar>21 - 10\<bar> < \<bar>22 - (10 :: real)\<bar>" by simp
  from h1 h2 penalties_monotone [of default_settings 10 _ example_market 21 22]
  show ?thesis by blast
qed

text \<open>
  C9 as stated holds only the market state fixed for the stability penalty. The penalty
  divides by \<^verbatim>\<open>max(1.0, old_price)\<close>, so it is not a function of the distance alone: in one
  market the distance 2 from the old price 1 costs 4, and the larger distance 3 from the
  old price 10 costs 0.09.
\<close>

theorem penalty_stability_counterexample:
  "\<bar>3 - 1\<bar> < \<bar>13 - (10 :: real)\<bar>
   \<and> stability_penalty default_settings 1 3 example_market = 4
   \<and> stability_penalty default_settings 10 13 example_market = 9 / 100
   \<and> \<not> stability_penalty default_settings 1 3 example_market
         < stability_penalty default_settings 10 13 example_market"
  by (simp add: stability_penalty_eq power2_eq_square)


text \<open>
  C1 says that a run with \<open>steps = 0\<close> returns an empty action list. The code replaces a
  step count of 0 by the default of the settings: with the default settings the run with
  \<open>steps = 0\<close> is the run with \<open>steps = 30\<close>, it returns, and its result holds 30 actions.
\<close>

theorem run_simulation_zero_steps:
  "run_simulation h default_settings product m (Some 0) g c
     = run_simulation h default_settings product m (Some 30) g c
   \<and> (\<exists>r g' c'. run_simulation h default_settings product m (Some 0) g c = Inr (r, g', c')
         \<and> length (sr_actions r) = 30 \<and> sr_steps r = 30)"
proof -
  obtain acts' cp' m' prices' g' c' where
    rl: "run_loop h default_settings product 30 0 ([], current_price m, m, [current_price m], g, c)
           = Inr (acts', cp', m', prices', g', c')"
    and len: "length acts' = length ([] :: PricingAction list) + 30"
    using run_loop_length [of h default_settings product 30 0 "[]" "current_price m" m "[current_price m]" g c]
    by blast
  have ds: "default_steps default_settings = 30" by (simp add: default_settings_def)
  have ne: "acts' \<noteq> []" using len by auto
  show ?thesis
    using len ne by (simp add: run_simulation_def ds rl py_div_def Let_def)
qed

text \<open>
  C2, as amended. Two runs from the same generator state, with the same settings, product,
  initial market state and step count, both return, and they agree on everything but the
  clock readings: once the timestamp of each action is erased the two results are equal,
  field by field and action by action in order, and the generator ends in the same state,
  whatever the clock shows during either run.
\<close>

theorem run_simulation_reproducible:
  "(\<exists>r g' c'. run_simulation h s product m steps g c1 = Inr (r, g', c'))
   \<and> map_sum id erase_run (run_simulation h s product m steps g c1)
       = map_sum id erase_run (run_simulation h s product m steps g c2)"
proof -
  define n where "n = (case steps of None \<Rightarrow> default_steps s | Some k \<Rightarrow> if k = 0 then default_steps s else k)"
  let ?st1 = "([], current_price m, m, [current_price m], g, c1)"
  let ?st2 = "([], current_price m, m, [current_price m], g, c2)"
  obtain a1 p1 m1 ps1 g1 d1 where
    r1: "run_loop h s product (nat n) 0 ?st1 = Inr (a1, p1, m1, ps1, g1, d1)"
    using run_loop_length [of h s product "nat n" 0 "[]" "current_price m" m "[current_price m]" g c1]
    by blast
  obtain a2 p2 m2 ps2 g2 d2 where
    r2: "run_loop h s product (nat n) 0 ?st2 = Inr (a2, p2, m2, ps2, g2, d2)"
    using run_loop_length [of h s product "nat n" 0 "[]" "current_price m" m "[current_price m]" g c2]
    by blast
  have "erase_state ?st1 = erase_state ?st2" by simp
  from run_loop_erased[OF this, of h s product "nat n" 0] r1 r2
  have eqs: "map erase_action a1 = map erase_action a2" "p1 = p2" "ps1 = ps2" "g1 = g2"
    by simp_all
  have rw: "map pa_reward a1 = map pa_reward a2"
    using eqs(1) map_erase_reward[of a1] map_erase_reward[of a2] by simp
  have len: "length a1 = length a2" using eqs(1) by (metis length_map)
  have emp: "(a1 = []) = (a2 = [])" using len by auto
  have "map_sum id erase_run (run_simulation h s product m steps g c1)
       = map_sum id erase_run (run_simulation h s product m steps g c2)"
    using eqs rw len emp
    by (simp add: run_simulation_def n_def[symmetric] r1 r2 py_div_def Let_def erase_timestamps_def)
  then show ?thesis using run_simulation_returns[of h s product m steps g c1] by blast
qed

theorem run_simulation_reproducible_witness:
  "map_sum id erase_run
     (run_simulation frozen_host default_settings example_product example_market (Some 1) ()
        ''2026-01-01T00:00:00'')
   = map_sum id erase_run
     (run_simulation frozen_host default_settings example_product example_market (Some 1) ()
        ''2026-01-01T00:00:01'')"
  using run_simulation_reproducible
    [of frozen_host default_settings example_product example_market "Some 1" "()"
        "''2026-01-01T00:00:00''" "''2026-01-01T00:00:01''"]
  by blast

text \<open>
  C2 as stated asks for identical values in every field. Each action carries the clock
  reading of its construction (\<^verbatim>\<open>__post_init__\<close>), so two runs of one step that differ
  only in the time the clock shows return different results.
\<close>

theorem run_simulation_timestamp_counterexample:
  "run_simulation frozen_host default_settings example_product example_market (Some 1) ()
      ''2026-01-01T00:00:00''
   \<noteq> run_simulation frozen_host default_settings example_product example_market (Some 1) ()
      ''2026-01-01T00:00:01''"
proof
  let ?run = "run_simulation frozen_host default_settings example_product example_market (Some 1) ()"
  assume eq: "?run ''2026-01-01T00:00:00'' = ?run ''2026-01-01T00:00:01''"
  obtain r g' c' where r1: "?run ''2026-01-01T00:00:00'' = Inr (r, g', c')"
    using run_simulation_returns
      [of frozen_host default_settings example_product example_market "Some 1" "()" "''2026-01-01T00:00:00''"]
    by blast
  with eq have r2: "?run ''2026-01-01T00:00:01'' = Inr (r, g', c')" by simp
  from run_simulation_one_timestamp[OF r1] run_simulation_one_timestamp[OF r2]
  show False by (simp add: frozen_host_def)
qed


text \<open>
  C3, as amended. Let \<open>start\<close> be the index after the first colon at or after the first
  \<^verbatim>\<open>item_name\<close> marker of the lower-cased blob (0 when no colon follows). The name is the
  text from \<open>start\<close> up to the first \<^verbatim>\<open>bullet_point\<close> marker if that lies after \<open>start\<close>,
  else up to the first \<^verbatim>\<open>product_description\<close> marker if that lies after \<open>start\<close>, else to
  the end of the blob; stripped and cut to 120 characters. When there is no \<^verbatim>\<open>item_name\<close>
  marker, or that text is empty, the name is the first 80 characters of the blob, stripped,
  with newlines replaced by spaces.
\<close>

theorem parsed_name:
  "fst (fast_parse_catalog (Some raw)) =
     (let low = lower raw;
          fallback = replace_newlines (strip (take 80 raw))
      in case first_from ''item_name'' low 0 of
           None \<Rightarrow> fallback
         | Some ni \<Rightarrow>
             (let start = (case first_from '':'' raw ni of None \<Rightarrow> 0 | Some k \<Rightarrow> k + 1);
                  stop_d = (case first_from ''product_description'' low 0 of
                              None \<Rightarrow> length raw
                            | Some d \<Rightarrow> if start < d then d else length raw);
                  stop = (case first_from ''bullet_point'' low 0 of
                            None \<Rightarrow> stop_d
                          | Some b \<Rightarrow> if start < b then b else stop_d);
                  text = take 120 (strip (slice raw start stop))
              in if text = [] then fallback else text))"
proof (cases "raw = []")
  case True
  have "first_from ''item_name'' [] 0 = None"
    by (auto simp: first_from_def occurs_at_def)
  then show ?thesis using True
    by (simp add: fast_parse_catalog_def lower_def strip_def replace_newlines_def)
next
  case False
  show ?thesis
    using False
    by (simp add: fast_parse_catalog_def str_find_first Let_def nat_add_distrib
          split: option.splits)
qed

text \<open>
  C3 as stated fails in three ways. The \<^verbatim>\<open>bullet_point\<close> marker is preferred to a
  \<^verbatim>\<open>product_description\<close> marker that starts before it; a blob with the marker and an
  empty name gets the fallback; and the fallback strips the 80 characters.
\<close>

theorem catalog_name_counterexample:
  "fst (fast_parse_catalog (Some ''item_name: A product_description: B bullet_point: C''))
     = ''A product_description: B''
   \<and> claimed_name ''item_name: A product_description: B bullet_point: C'' = ''A''
   \<and> fst (fast_parse_catalog (Some ''item_name: bullet_point: x'')) = ''item_name: bullet_point: x''
   \<and> claimed_name ''item_name: bullet_point: x'' = []
   \<and> fst (fast_parse_catalog (Some '' abc'')) = ''abc''
   \<and> claimed_name '' abc'' = '' abc''"
  by code_simp


text \<open>
  C4. Ingestion is algorithm R with the capacity \<open>MAX_PRODUCTS = 10000\<close> (stated for every
  capacity \<open>cap\<close>). Nothing is kept of no rows. A further row, the \<open>i\<close>-th (from 0), is
  turned into its record; while \<open>i < cap\<close> the record is appended; from then on \<open>j\<close> is
  drawn by \<^verbatim>\<open>randint(0, i)\<close> and slot \<open>j\<close> is overwritten exactly when \<open>j < cap\<close>, the
  reservoir staying as it is otherwise. Whenever the rows are sampled, the count reported
  is the number of rows and the reservoir holds \<open>min cap n\<close> records, so at most \<open>cap\<close>.
  The first \<open>cap\<close> rows are sampled exactly when each of them has a record, the reservoir
  is then those records in order, and no draw is made. \<^verbatim>\<open>load_and_cache\<close> reports that
  count and keeps those records. That the draw is uniform is the library's contract.
\<close>

theorem reservoir_sampling:
  "MAX_PRODUCTS = 10000
   \<and> sample_rows lib cap [] g = Inr ([], 0, g)
   \<and> sample_rows lib cap (rows @ [r]) g =
       (case sample_rows lib cap rows g of
          Inl e \<Rightarrow> Inl e
        | Inr (reservoir, total_rows, g1) \<Rightarrow>
            (case make_product lib (length rows) r of
               Inl e \<Rightarrow> Inl e
             | Inr product \<Rightarrow>
                 if length rows < cap then Inr (reservoir @ [product], total_rows + 1, g1)
                 else
                   (case py_randint lib g1 0 (int (length rows)) of (j, g2) \<Rightarrow>
                      if 0 \<le> j \<and> j < int cap
                      then Inr (reservoir[nat j := product], total_rows + 1, g2)
                      else if int cap \<le> j then Inr (reservoir, total_rows + 1, g2)
                      else map_sum id (\<lambda>res. (res, total_rows + 1, g2))
                             (py_setitem reservoir j product))))
   \<and> (sample_rows lib cap rows g = Inr (reservoir', total_rows', g') \<longrightarrow>
        total_rows' = int (length rows) \<and> length reservoir' = min cap (length rows)
        \<and> length reservoir' \<le> cap)
   \<and> (sample_rows lib cap (take cap rows) g = Inr (reservoir', total_rows', g') \<longleftrightarrow>
        map Inr reservoir' = map (\<lambda>(k, r). make_product lib k r) (enumerate 0 (take cap rows))
        \<and> total_rows' = int (length (take cap rows)) \<and> g' = g)
   \<and> (load_and_cache lib None rows g = Inr (d, g') \<longrightarrow>
        pd_total_in_csv d = int (length rows)
        \<and> length (pd_products d) = min MAX_PRODUCTS (length rows))"
proof -
  have a: "sample_rows lib cap [] g = Inr ([], 0, g)" by (simp add: sample_rows_def)
  have counts: "total_rows' = int (length rows) \<and> length reservoir' = min cap (length rows)"
    if "sample_rows lib cap rows g = Inr (reservoir', total_rows', g')"
    for cap rows reservoir' total_rows' g'
    using ingest_counts[of lib cap 0 rows "[]" 0 g reservoir' total_rows' g'] that
    by (simp add: sample_rows_def)
  have b: "sample_rows lib cap (rows @ [r]) g =
       (case sample_rows lib cap rows g of
          Inl e \<Rightarrow> Inl e
        | Inr (reservoir, total_rows, g1) \<Rightarrow>
            (case make_product lib (length rows) r of
               Inl e \<Rightarrow> Inl e
             | Inr product \<Rightarrow>
                 if length rows < cap then Inr (reservoir @ [product], total_rows + 1, g1)
                 else
                   (case py_randint lib g1 0 (int (length rows)) of (j, g2) \<Rightarrow>
                      if 0 \<le> j \<and> j < int cap
                      then Inr (reservoir[nat j := product], total_rows + 1, g2)
                      else if int cap \<le> j then Inr (reservoir, total_rows + 1, g2)
                      else map_sum id (\<lambda>res. (res, total_rows + 1, g2))
                             (py_setitem reservoir j product))))"
  proof (cases "sample_rows lib cap rows g")
    case (Inl e)
    then show ?thesis by (simp add: sample_rows_def ingest_append)
  next
    case (Inr st)
    obtain reservoir total_rows g1 where st: "st = (reservoir, total_rows, g1)" by (cases st)
    from counts[of cap rows reservoir total_rows g1] Inr st
    have len: "length reservoir = min cap (length rows)" by simp
    have ing: "ingest lib cap 0 rows ([], 0, g) = Inr (reservoir, total_rows, g1)"
      using Inr st by (simp add: sample_rows_def)
    show ?thesis
    proof (cases "make_product lib (length rows) r")
      case mp: (Inl e)
      show ?thesis
        unfolding sample_rows_def ingest_append
        by (simp add: ing mp)
    next
      case mp: (Inr product)
      show ?thesis
      proof (cases "length rows < cap")
        case True
        then have "length reservoir < cap" using len by simp
        then show ?thesis
          unfolding sample_rows_def ingest_append
          using True by (simp add: ing mp)
      next
        case False
        then have full: "length reservoir = cap" using len by simp
        obtain j g2 where rj: "py_randint lib g1 0 (int (length rows)) = (j, g2)"
          by (cases "py_randint lib g1 0 (int (length rows))")
        have set_ok: "py_setitem reservoir j product = Inr (reservoir[nat j := product])"
          if "0 \<le> j" "j < int cap"
          using that full by (intro py_setitem_in_range) simp_all
        show ?thesis
          unfolding sample_rows_def ingest_append
          using False full set_ok
          by (auto simp: ing mp rj split: sum.splits)
      qed
    qed
  qed
  have c: "sample_rows lib cap rows g = Inr (reservoir', total_rows', g') \<longrightarrow>
        total_rows' = int (length rows) \<and> length reservoir' = min cap (length rows)
        \<and> length reservoir' \<le> cap"
    using counts[of cap rows reservoir' total_rows' g'] by auto
  have d: "sample_rows lib cap (take cap rows) g = Inr (reservoir', total_rows', g') \<longleftrightarrow>
        map Inr reservoir' = map (\<lambda>(k, r). make_product lib k r) (enumerate 0 (take cap rows))
        \<and> total_rows' = int (length (take cap rows)) \<and> g' = g"
    using ingest_fill[of "[]" "take cap rows" cap lib 0 0 g reservoir' total_rows' g']
    by (simp add: sample_rows_def)
  have e: "load_and_cache lib None rows g = Inr (d, g') \<longrightarrow>
        pd_total_in_csv d = int (length rows)
        \<and> length (pd_products d) = min MAX_PRODUCTS (length rows)"
  proof
    assume l: "load_and_cache lib None rows g = Inr (d, g')"
    then obtain reservoir total_rows where
      s: "sample_rows lib MAX_PRODUCTS rows g = Inr (reservoir, total_rows, g')"
      and ag: "aggregate reservoir total_rows = Inr d"
      by (auto simp: load_and_cache_def Let_def split: sum.splits)
    from ag have "pd_total_in_csv d = total_rows" "pd_products d = reservoir"
      by (auto simp: aggregate_def Let_def split: sum.splits)
    with counts[OF s] show "pd_total_in_csv d = int (length rows)
        \<and> length (pd_products d) = min MAX_PRODUCTS (length rows)" by simp
  qed
  have m: "MAX_PRODUCTS = 10000" by (simp add: MAX_PRODUCTS_def)
  from m a b c d e show ?thesis by (intro conjI)
qed

theorem reservoir_sampling_witness:
  "\<not> isl (sample_rows example_lib 2 example_rows 0)
   \<and> fst (snd (projr (sample_rows example_lib 2 example_rows 0))) = 3
   \<and> length (fst (projr (sample_rows example_lib 2 example_rows 0))) = 2"
proof -
  have r: "\<not> isl (sample_rows example_lib 2 example_rows 0)" by code_simp
  then obtain reservoir total_rows g' where
    s: "sample_rows example_lib 2 example_rows 0 = Inr (reservoir, total_rows, g')"
    by (cases "sample_rows example_lib 2 example_rows 0") auto
  have len: "length example_rows = 3" by (simp add: example_rows_def)
  from reservoir_sampling [of example_lib 2 0 example_rows _ reservoir total_rows g'] s len
  have "total_rows = 3 \<and> length reservoir = 2" by simp
  with r s show ?thesis by simp
qed

text \<open>
  C5. Aggregation never fails: \<^verbatim>\<open>load_and_cache\<close> on a cache miss returns exactly when the
  rows can be sampled. Every snapshot it returns satisfies: the category counts sum to
  \<open>total_products\<close>, which is the number of records, at most \<open>MAX_PRODUCTS\<close> and at most
  \<open>total_in_csv\<close>; \<open>priced_products\<close> is the number of records with a price above zero; and
  when that number is positive, \<open>min_price \<le> median_price \<le> max_price\<close>.
\<close>

theorem snapshot_consistent:
  "(isl (load_and_cache lib None rows g) \<longleftrightarrow> isl (sample_rows lib MAX_PRODUCTS rows g))
   \<and> (load_and_cache lib None rows g = Inr (d, g') \<longrightarrow>
        sum_list (map snd (pd_category_counts d)) = pd_total_products d
        \<and> pd_total_products d = int (length (pd_products d))
        \<and> length (pd_products d) \<le> MAX_PRODUCTS
        \<and> pd_total_products d \<le> pd_total_in_csv d
        \<and> pd_priced_products d = int (length (filter (\<lambda>p. 0 < p_price p) (pd_products d)))
        \<and> (0 < pd_priced_products d \<longrightarrow>
             pd_min_price d \<le> pd_median_price d \<and> pd_median_price d \<le> pd_max_price d))"
proof -
  have a: "isl (load_and_cache lib None rows g) \<longleftrightarrow> isl (sample_rows lib MAX_PRODUCTS rows g)"
    by (simp add: load_and_cache_miss aggregate_ok split: sum.splits prod.splits)
  have b: "sum_list (map snd (pd_category_counts d)) = pd_total_products d
        \<and> pd_total_products d = int (length (pd_products d))
        \<and> length (pd_products d) \<le> MAX_PRODUCTS
        \<and> pd_total_products d \<le> pd_total_in_csv d
        \<and> pd_priced_products d = int (length (filter (\<lambda>p. 0 < p_price p) (pd_products d)))
        \<and> (0 < pd_priced_products d \<longrightarrow>
             pd_min_price d \<le> pd_median_price d \<and> pd_median_price d \<le> pd_max_price d)"
    if l: "load_and_cache lib None rows g = Inr (d, g')"
  proof -
    from l obtain reservoir total_rows where
      s: "sample_rows lib MAX_PRODUCTS rows g = Inr (reservoir, total_rows, g')"
      and ag: "aggregate reservoir total_rows = Inr d"
      unfolding load_and_cache_miss_Inr by blast
    from ingest_counts[of lib MAX_PRODUCTS 0 rows "[]" 0 g reservoir total_rows g'] s
    have tot: "total_rows = int (length rows)"
      and len: "length reservoir = min MAX_PRODUCTS (length rows)"
      by (simp_all add: sample_rows_def)
    note d = ag[unfolded aggregate_ok, simplified, symmetric]
    have c1: "sum_list (map snd (pd_category_counts d)) = pd_total_products d"
      by (simp add: d sum_sort_key sweep_counts_sum acc0_def)
    have c2: "pd_total_products d = int (length (pd_products d))" by (simp add: d)
    have c3: "length (pd_products d) \<le> MAX_PRODUCTS" using len by (simp add: d)
    have c4: "pd_total_products d \<le> pd_total_in_csv d" using len tot by (simp add: d)
    have c5: "pd_priced_products d = int (length (filter (\<lambda>p. 0 < p_price p) (pd_products d)))"
      by (simp add: d length_positive_prices)
    have c6: "pd_min_price d \<le> pd_median_price d \<and> pd_median_price d \<le> pd_max_price d"
      if "0 < pd_priced_products d"
    proof -
      from that have ne: "positive_prices reservoir \<noteq> []" by (auto simp: d)
      then have sne: "sort (positive_prices reservoir) \<noteq> []" by (simp add: sort_eq_Nil)
      from sorted_median_between[OF _ sne] ne show ?thesis
        by (simp add: d price_stats_ok)
    qed
    from c1 c2 c3 c4 c5 c6 show ?thesis by blast
  qed
  from a b show ?thesis by blast
qed

theorem snapshot_consistent_witness:
  "\<not> isl (load_and_cache example_lib None example_rows 0)
   \<and> sum_list (map snd (pd_category_counts (fst (projr (load_and_cache example_lib None example_rows 0))))) = 3
   \<and> length (pd_products (fst (projr (load_and_cache example_lib None example_rows 0)))) = 3
   \<and> pd_total_in_csv (fst (projr (load_and_cache example_lib None example_rows 0))) = 3
   \<and> length (filter (\<lambda>p. 0 < p_price p)
         (pd_products (fst (projr (load_and_cache example_lib None example_rows 0))))) = 2
   \<and> pd_min_price (fst (projr (load_and_cache example_lib None example_rows 0)))
       \<le> pd_median_price (fst (projr (load_and_cache example_lib None example_rows 0)))
   \<and> pd_median_price (fst (projr (load_and_cache example_lib None example_rows 0)))
       \<le> pd_max_price (fst (projr (load_and_cache example_lib None example_rows 0)))"
proof -
  let ?r = "load_and_cache example_lib None example_rows 0"
  have s: "\<not> isl (sample_rows example_lib MAX_PRODUCTS example_rows 0)" by code_simp
  obtain d g' where l: "?r = Inr (d, g')"
    using s snapshot_consistent [of example_lib example_rows 0] by (cases ?r) auto
  have t: "pd_total_products (fst (projr ?r)) = 3" by code_simp
  have p: "pd_priced_products (fst (projr ?r)) = 2" by code_simp
  have c: "pd_total_in_csv (fst (projr ?r)) = 3" by code_simp
  from snapshot_consistent [of example_lib example_rows 0 d g'] l t p c
  show ?thesis by simp
qed

text \<open>
  C6. In every snapshot \<^verbatim>\<open>load_and_cache\<close> returns on a cache miss, all records count in
  \<open>total_products\<close> and in the count of their category, whatever their price; the price
  statistics are those of the prices above zero only: their number, the number of the
  others as \<open>zero_price_count\<close>, the mean, the element at index \<open>len // 2\<close> of the sorted
  list as median, the least, the greatest, and the population standard deviation
  \<open>sqrt (mean ((x - mean)\<^sup>2))\<close>; all five are 0 when no price is above zero. Per category,
  the average, minimum and maximum are those of the prices above zero of its records, and
  a category without such a price has no entry.
\<close>

theorem price_statistics:
  "load_and_cache lib None rows g = Inr (d, g') \<longrightarrow>
     pd_total_products d = int (length (pd_products d))
   \<and> (\<forall>c. dict_get (pd_category_counts d) c 0 = int (length (in_category c (pd_products d))))
   \<and> pd_priced_products d = int (length (positive_prices (pd_products d)))
   \<and> pd_zero_price_count d = int (length (filter (\<lambda>p. p_price p \<le> 0) (pd_products d)))
   \<and> (if positive_prices (pd_products d) = []
       then pd_avg_price d = 0 \<and> pd_median_price d = 0 \<and> pd_min_price d = 0
            \<and> pd_max_price d = 0 \<and> pd_std_price d = 0
       else pd_avg_price d
              = sum_list (positive_prices (pd_products d)) / real (length (positive_prices (pd_products d)))
            \<and> pd_median_price d
              = sort (positive_prices (pd_products d)) ! (length (positive_prices (pd_products d)) div 2)
            \<and> pd_min_price d = Min (set (positive_prices (pd_products d)))
            \<and> pd_max_price d = Max (set (positive_prices (pd_products d)))
            \<and> pd_std_price d
              = sqrt (sum_list (map (\<lambda>x. (x - pd_avg_price d) ^ 2) (positive_prices (pd_products d)))
                      / real (length (positive_prices (pd_products d)))))
   \<and> (\<forall>c. map_of (pd_category_avg_prices d) c
             = (if positive_prices (in_category c (pd_products d)) = [] then None
                else Some (sum_list (positive_prices (in_category c (pd_products d)))
                           / real (length (positive_prices (in_category c (pd_products d))))))
          \<and> map_of (pd_category_min_prices d) c
             = (if positive_prices (in_category c (pd_products d)) = [] then None
                else Some (Min (set (positive_prices (in_category c (pd_products d))))))
          \<and> map_of (pd_category_max_prices d) c
             = (if positive_prices (in_category c (pd_products d)) = [] then None
                else Some (Max (set (positive_prices (in_category c (pd_products d)))))))"
proof
  assume l: "load_and_cache lib None rows g = Inr (d, g')"
  then obtain reservoir total_rows where ag: "aggregate reservoir total_rows = Inr d"
    unfolding load_and_cache_miss_Inr by blast
  note d = ag[unfolded aggregate_ok, simplified, symmetric]
  let ?pp = "positive_prices reservoir"
  have recs: "pd_products d = reservoir" by (simp add: d)
  have c1: "pd_total_products d = int (length (pd_products d))" by (simp add: d)
  have c2: "\<forall>c. dict_get (pd_category_counts d) c 0 = int (length (in_category c (pd_products d)))"
  proof
    fix c
    have "distinct (map fst (cat_counts (sweep reservoir acc0)))"
      by (rule sweep_counts_distinct) (simp add: acc0_def)
    then have "map_of (pd_category_counts d) = map_of (cat_counts (sweep reservoir acc0))"
      by (simp add: d map_of_sort_key)
    then have eq: "dict_get (pd_category_counts d) c 0 = dict_get (cat_counts (sweep reservoir acc0)) c 0"
      by (simp add: dict_get_def)
    have "dict_get (cat_counts acc0) c 0 = 0" by (simp add: acc0_def dict_get_def)
    then show "dict_get (pd_category_counts d) c 0 = int (length (in_category c (pd_products d)))"
      using sweep_counts_get[of reservoir acc0 c] by (simp add: eq recs)
  qed
  have c3: "pd_priced_products d = int (length (positive_prices (pd_products d)))" by (simp add: d)
  have c4: "pd_zero_price_count d = int (length (filter (\<lambda>p. p_price p \<le> 0) (pd_products d)))"
  proof -
    have "length reservoir = length (filter (\<lambda>p. 0 < p_price p) reservoir)
            + length (filter (\<lambda>p. \<not> 0 < p_price p) reservoir)"
      by (simp add: sum_length_filter_compl)
    then show ?thesis by (simp add: d length_positive_prices not_less)
  qed
  have c5: "if positive_prices (pd_products d) = []
       then pd_avg_price d = 0 \<and> pd_median_price d = 0 \<and> pd_min_price d = 0
            \<and> pd_max_price d = 0 \<and> pd_std_price d = 0
       else pd_avg_price d
              = sum_list (positive_prices (pd_products d)) / real (length (positive_prices (pd_products d)))
            \<and> pd_median_price d
              = sort (positive_prices (pd_products d)) ! (length (positive_prices (pd_products d)) div 2)
            \<and> pd_min_price d = Min (set (positive_prices (pd_products d)))
            \<and> pd_max_price d = Max (set (positive_prices (pd_products d)))
            \<and> pd_std_price d
              = sqrt (sum_list (map (\<lambda>x. (x - pd_avg_price d) ^ 2) (positive_prices (pd_products d)))
                      / real (length (positive_prices (pd_products d))))"
  proof (cases "?pp = []")
    case True
    then show ?thesis by (simp add: d price_stats_ok)
  next
    case False
    then have sne: "sort ?pp \<noteq> []" by (simp add: sort_eq_Nil)
    have ss: "sum_list (sort ?pp) = sum_list ?pp"
      using sum_sort_key[of "\<lambda>x. x" "\<lambda>x. x" ?pp] by simp
    have sq: "sum_list (map (\<lambda>x. (x - a) ^ 2) (sort ?pp)) = sum_list (map (\<lambda>x. (x - a) ^ 2) ?pp)"
      for a :: real
      by (rule sum_sort_key)
    have mn: "hd (sort ?pp) = Min (set ?pp)" using sorted_hd_Min[OF _ sne] by simp
    have mx: "last (sort ?pp) = Max (set ?pp)" using sorted_last_Max[OF _ sne] by simp
    show ?thesis using False by (simp add: d price_stats_ok ss sq mn mx)
  qed
  have c6: "\<forall>c. map_of (pd_category_avg_prices d) c
             = (if positive_prices (in_category c (pd_products d)) = [] then None
                else Some (sum_list (positive_prices (in_category c (pd_products d)))
                           / real (length (positive_prices (in_category c (pd_products d))))))
          \<and> map_of (pd_category_min_prices d) c
             = (if positive_prices (in_category c (pd_products d)) = [] then None
                else Some (Min (set (positive_prices (in_category c (pd_products d))))))
          \<and> map_of (pd_category_max_prices d) c
             = (if positive_prices (in_category c (pd_products d)) = [] then None
                else Some (Max (set (positive_prices (in_category c (pd_products d))))))"
  proof
    fix c
    let ?cp = "positive_prices (in_category c reservoir)"
    have cnt: "map_of (cat_cnts (sweep reservoir acc0)) c
        = (if ?cp = [] then None else Some (int (length ?cp)))"
      by (simp add: sweep_cnts_map acc0_def dict_get_def)
    have sm: "?cp \<noteq> [] \<Longrightarrow> dict_get (cat_sums (sweep reservoir acc0)) c 0 = sum_list ?cp"
      by (simp add: dict_get_def sweep_sums_map acc0_def)
    have avg: "map_of (pd_category_avg_prices d) c
        = (if ?cp = [] then None else Some (sum_list ?cp / real (length ?cp)))"
      using sm
        map_of_keyed_map[of "\<lambda>k n. dict_get (cat_sums (sweep reservoir acc0)) k 0 / real_of_int n"
          "cat_cnts (sweep reservoir acc0)" c]
      by (simp add: d cnt)
    have mn: "map_of (pd_category_min_prices d) c = (if ?cp = [] then None else Some (Min (set ?cp)))"
      by (simp add: d sweep_mins_map fold_min_None acc0_def)
    have mx: "map_of (pd_category_max_prices d) c = (if ?cp = [] then None else Some (Max (set ?cp)))"
      by (simp add: d sweep_maxs_map fold_max_None acc0_def)
    from avg mn mx show "map_of (pd_category_avg_prices d) c
             = (if positive_prices (in_category c (pd_products d)) = [] then None
                else Some (sum_list (positive_prices (in_category c (pd_products d)))
                           / real (length (positive_prices (in_category c (pd_products d))))))
          \<and> map_of (pd_category_min_prices d) c
             = (if positive_prices (in_category c (pd_products d)) = [] then None
                else Some (Min (set (positive_prices (in_category c (pd_products d))))))
          \<and> map_of (pd_category_max_prices d) c
             = (if positive_prices (in_category c (pd_products d)) = [] then None
                else Some (Max (set (positive_prices (in_category c (pd_products d))))))"
      by (simp only: recs) 
  qed
  from c1 c2 c3 c4 c5 c6 show "pd_total_products d = int (length (pd_products d))
   \<and> (\<forall>c. dict_get (pd_category_counts d) c 0 = int (length (in_category c (pd_products d))))
   \<and> pd_priced_products d = int (length (positive_prices (pd_products d)))
   \<and> pd_zero_price_count d = int (length (filter (\<lambda>p. p_price p \<le> 0) (pd_products d)))
   \<and> (if positive_prices (pd_products d) = []
       then pd_avg_price d = 0 \<and> pd_median_price d = 0 \<and> pd_min_price d = 0
            \<and> pd_max_price d = 0 \<and> pd_std_price d = 0
       else pd_avg_price d
              = sum_list (positive_prices (pd_products d)) / real (length (positive_prices (pd_products d)))
            \<and> pd_median_price d
              = sort (positive_prices (pd_products d)) ! (length (positive_prices (pd_products d)) div 2)
            \<and> pd_min_price d = Min (set (positive_prices (pd_products d)))
            \<and> pd_max_price d = Max (set (positive_prices (pd_products d)))
            \<and> pd_std_price d
              = sqrt (sum_list (map (\<lambda>x. (x - pd_avg_price d) ^ 2) (positive_prices (pd_products d)))
                      / real (length (positive_prices (pd_products d)))))
   \<and> (\<forall>c. map_of (pd_category_avg_prices d) c
             = (if positive_prices (in_category c (pd_products d)) = [] then None
                else Some (sum_list (positive_prices (in_category c (pd_products d)))
                           / real (length (positive_prices (in_category c (pd_products d))))))
          \<and> map_of (pd_category_min_prices d) c
             = (if positive_prices (in_category c (pd_products d)) = [] then None
                else Some (Min (set (positive_prices (in_category c (pd_products d))))))
          \<and> map_of (pd_category_max_prices d) c
             = (if positive_prices (in_category c (pd_products d)) = [] then None
                else Some (Max (set (positive_prices (in_category c (pd_products d)))))))"
    by (intro conjI)
qed

theorem price_statistics_witness:
  "\<not> isl (load_and_cache example_lib None example_rows 0)
   \<and> map p_price (pd_products (fst (projr (load_and_cache example_lib None example_rows 0)))) = [10, 0, 25]
   \<and> pd_priced_products (fst (projr (load_and_cache example_lib None example_rows 0))) = 2
   \<and> pd_zero_price_count (fst (projr (load_and_cache example_lib None example_rows 0))) = 1
   \<and> pd_avg_price (fst (projr (load_and_cache example_lib None example_rows 0))) = 35 / 2
   \<and> pd_median_price (fst (projr (load_and_cache example_lib None example_rows 0))) = 25
   \<and> pd_min_price (fst (projr (load_and_cache example_lib None example_rows 0))) = 10
   \<and> pd_max_price (fst (projr (load_and_cache example_lib None example_rows 0))) = 25
   \<and> pd_std_price (fst (projr (load_and_cache example_lib None example_rows 0))) = 15 / 2"
proof -
  let ?r = "load_and_cache example_lib None example_rows 0"
  have s: "\<not> isl ?r" by code_simp
  then obtain d g' where l: "?r = Inr (d, g')" by (cases ?r) auto
  have pr: "map p_price (pd_products (fst (projr ?r))) = [10, 0, 25]" by code_simp
  then have prd: "map p_price (pd_products d) = [10, 0, 25]" using l by simp
  have pp: "positive_prices (pd_products d) = [10, 25]"
    by (simp add: positive_prices_def prd)
  have z: "length (filter (\<lambda>p. p_price p \<le> 0) (pd_products d)) = 1"
  proof -
    have "length (filter (\<lambda>p. p_price p \<le> 0) (pd_products d))
        = length (filter (\<lambda>x. x \<le> 0) (map p_price (pd_products d)))"
      by (simp add: filter_map comp_def)
    then show ?thesis by (simp add: prd)
  qed
  have sq: "sqrt (225 / 4) = 15 / (2 :: real)"
    using real_sqrt_abs[of "15 / 2"] by (simp add: power2_eq_square)
  note ps = price_statistics [of example_lib example_rows 0 d g', rule_format, OF l]
  have counts: "pd_priced_products d = 2 \<and> pd_zero_price_count d = 1"
    using ps pp z by simp
  have avg: "pd_avg_price d = 35 / 2" using ps pp by simp
  have rest: "pd_median_price d = 25 \<and> pd_min_price d = 10 \<and> pd_max_price d = 25"
    using ps pp by simp
  have "pd_std_price d = sqrt (sum_list (map (\<lambda>x. (x - 35 / 2) ^ 2) [10, 25]) / 2)"
    using ps pp avg by simp
  also have "\<dots> = sqrt (225 / 4)" by (simp add: power2_eq_square)
  finally have std: "pd_std_price d = 15 / 2" by (simp only: sq)
  from counts avg rest std
  have "pd_priced_products d = 2 \<and> pd_zero_price_count d = 1 \<and> pd_avg_price d = 35 / 2
      \<and> pd_median_price d = 25 \<and> pd_min_price d = 10 \<and> pd_max_price d = 25
      \<and> pd_std_price d = 15 / 2"
    by simp
  with s l pr show ?thesis by simp
qed

end
